theory Spec2Isabelle
  imports Main "HOL-Library.Word" "HOL-Library.AList" "HOL-Library.Sublist"
begin

section \<open>Strings\<close>

text \<open>
  A JavaScript string is a sequence of UTF-16 code units. The regular expressions of the
  source carry no \<open>u\<close> flag, so they work on code units as well.
\<close>

type_synonym jschar = "16 word"
type_synonym jsstring = "jschar list"

text \<open>
  The character class \<open>\s\<close> of ECMAScript: WhiteSpace (TAB, VT, FF, ZWNBSP and the
  space separators) and LineTerminator (LF, CR, LS, PS).
\<close>

definition is_space :: "jschar \<Rightarrow> bool" where
  "is_space c \<longleftrightarrow>
     c = 0x09 \<or> c = 0x0A \<or> c = 0x0B \<or> c = 0x0C \<or> c = 0x0D \<or> c = 0x20 \<or>
     c = 0xA0 \<or> c = 0x1680 \<or> (0x2000 \<le> c \<and> c \<le> 0x200A) \<or>
     c = 0x2028 \<or> c = 0x2029 \<or> c = 0x202F \<or> c = 0x205F \<or> c = 0x3000 \<or> c = 0xFEFF"

text \<open>ASCII text as code units, for writing examples.\<close>

definition js :: "string \<Rightarrow> jsstring" where
  "js s = map of_char s"

section \<open>lib/diff.ts\<close>

datatype SegType = Equal | Added | Removed

datatype DiffSegment = DiffSegment (seg_value: jsstring) (seg_type: SegType)

text \<open>
  \<open>tokenize\<close>: \<open>input.match(/(\s+|[^\s]+)/g) ?? []\<close>. Every code unit is in \<open>\s\<close> or in
  \<open>[^\s]\<close>, so the global match never skips a position: each match starts where the last one
  ended and, both alternatives being greedy, takes the maximal run of the class of its first
  code unit. No match at all (the empty string) gives \<open>null\<close>, hence \<open>[]\<close>.
\<close>

function tokenize :: "jsstring \<Rightarrow> jsstring list" where
  "tokenize [] = []"
| "tokenize (c # cs) =
     (c # takeWhile (\<lambda>x. is_space x = is_space c) cs)
       # tokenize (dropWhile (\<lambda>x. is_space x = is_space c) cs)"
  by pat_completeness auto
termination
  by (relation "measure length") (auto simp: length_dropWhile_le less_Suc_eq_le)

text \<open>
  \<open>lcsTable\<close>: the table starts as \<open>m + 1\<close> rows of \<open>n + 1\<close> zeros; the loops run \<open>i\<close> from
  \<open>m - 1\<close> down to \<open>0\<close> and, inside, \<open>j\<close> from \<open>n - 1\<close> down to \<open>0\<close>. The argument
  \<open>Suc j\<close> (\<open>Suc i\<close>) of the loop functions is the number of iterations still to run, so the
  index of the current iteration is \<open>j\<close> (\<open>i\<close>).
\<close>

definition lcsCell :: "jsstring list \<Rightarrow> jsstring list \<Rightarrow> nat \<Rightarrow> nat \<Rightarrow> nat list list \<Rightarrow> nat list list" where
  "lcsCell a b i j dp =
     (if a ! i = b ! j
      then dp[i := (dp ! i)[j := dp ! (i + 1) ! (j + 1) + 1]]
      else dp[i := (dp ! i)[j := max (dp ! (i + 1) ! j) (dp ! i ! (j + 1))]])"

fun lcsInner :: "jsstring list \<Rightarrow> jsstring list \<Rightarrow> nat \<Rightarrow> nat \<Rightarrow> nat list list \<Rightarrow> nat list list" where
  "lcsInner a b i 0 dp = dp"
| "lcsInner a b i (Suc j) dp = lcsInner a b i j (lcsCell a b i j dp)"

fun lcsOuter :: "jsstring list \<Rightarrow> jsstring list \<Rightarrow> nat \<Rightarrow> nat list list \<Rightarrow> nat list list" where
  "lcsOuter a b 0 dp = dp"
| "lcsOuter a b (Suc i) dp = lcsOuter a b i (lcsInner a b i (length b) dp)"

definition lcsTable :: "jsstring list \<Rightarrow> jsstring list \<Rightarrow> nat list list" where
  "lcsTable a b =
     lcsOuter a b (length a) (replicate (length a + 1) (replicate (length b + 1) 0))"

text \<open>
  \<open>push\<close> of \<open>diffWords\<close>: an empty value is dropped; a value of the type of the last segment
  is appended to that segment's value; any other value opens a new segment.
\<close>

definition push :: "DiffSegment list \<Rightarrow> SegType \<Rightarrow> jsstring \<Rightarrow> DiffSegment list" where
  "push segments ty v =
     (if v = [] then segments
      else if segments \<noteq> [] \<and> seg_type (last segments) = ty
      then butlast segments @ [DiffSegment (seg_value (last segments) @ v) ty]
      else segments @ [DiffSegment v ty])"

text \<open>The first \<open>while\<close> loop of \<open>diffWords\<close>, with the two loops that drain the rest.\<close>

definition drainRemoved :: "jsstring list \<Rightarrow> nat \<Rightarrow> DiffSegment list \<Rightarrow> DiffSegment list" where
  "drainRemoved a i segments = fold (\<lambda>t s. push s Removed t) (drop i a) segments"

definition drainAdded :: "jsstring list \<Rightarrow> nat \<Rightarrow> DiffSegment list \<Rightarrow> DiffSegment list" where
  "drainAdded b j segments = fold (\<lambda>t s. push s Added t) (drop j b) segments"

function walk :: "jsstring list \<Rightarrow> jsstring list \<Rightarrow> nat list list \<Rightarrow> nat \<Rightarrow> nat
    \<Rightarrow> DiffSegment list \<Rightarrow> DiffSegment list" where
  "walk a b dp i j segments =
     (if i < length a \<and> j < length b then
        (if a ! i = b ! j then walk a b dp (i + 1) (j + 1) (push segments Equal (a ! i))
         else if dp ! (i + 1) ! j \<ge> dp ! i ! (j + 1)
         then walk a b dp (i + 1) j (push segments Removed (a ! i))
         else walk a b dp i (j + 1) (push segments Added (b ! j)))
      else drainAdded b j (drainRemoved a i segments))"
  by pat_completeness auto
termination
  by (relation "measure (\<lambda>(a, b, dp, i, j, segments). (length a - i) + (length b - j))") auto

declare walk.simps [simp del]

definition diffWords :: "jsstring \<Rightarrow> jsstring \<Rightarrow> DiffSegment list" where
  "diffWords oldText newText =
     (let a = tokenize oldText; b = tokenize newText; dp = lcsTable a b
      in walk a b dp 0 0 [])"

section \<open>components/inline-diff-resolver.tsx\<close>

datatype Op =
    is_EqualOp: EqualOp (op_value: jsstring)
  | is_ChangeOp: ChangeOp (op_before: jsstring) (op_after: jsstring)

text \<open>
  The loop of \<open>groupOps\<close> over the segments from position \<open>i\<close> on. An equal segment is passed
  through. Otherwise the two inner loops take the run of removed segments at \<open>i\<close> and then the
  run of added segments behind it, and one change-op is pushed unless both texts are empty.
\<close>

function groupSegs :: "DiffSegment list \<Rightarrow> Op list" where
  "groupSegs [] = []"
| "groupSegs (s # segs) =
     (if seg_type s = Equal then EqualOp (seg_value s) # groupSegs segs
      else
        (let removed = concat (map seg_value (takeWhile (\<lambda>x. seg_type x = Removed) (s # segs)));
             rest = dropWhile (\<lambda>x. seg_type x = Removed) (s # segs);
             added = concat (map seg_value (takeWhile (\<lambda>x. seg_type x = Added) rest))
         in (if removed \<noteq> [] \<or> added \<noteq> [] then [ChangeOp removed added] else [])
              @ groupSegs (dropWhile (\<lambda>x. seg_type x = Added) rest)))"
  by pat_completeness auto
termination
proof (relation "measure length")
  show "wf (measure length)" by simp
next
  fix s :: DiffSegment and segs :: "DiffSegment list"
  assume "seg_type s = Equal"
  then show "(segs, s # segs) \<in> measure length" by simp
next
  fix s :: DiffSegment and segs rest :: "DiffSegment list" and removed :: jsstring
    and added :: jsstring
  assume ne: "seg_type s \<noteq> Equal"
    and rest: "rest = dropWhile (\<lambda>x. seg_type x = Removed) (s # segs)"
  have "length (dropWhile (\<lambda>x. seg_type x = Added) rest) \<le> length segs"
  proof (cases "seg_type s")
    case Equal
    with ne show ?thesis by simp
  next
    case Added
    with rest have "dropWhile (\<lambda>x. seg_type x = Added) rest
        = dropWhile (\<lambda>x. seg_type x = Added) segs" by simp
    then show ?thesis by (simp add: length_dropWhile_le)
  next
    case Removed
    with rest have "rest = dropWhile (\<lambda>x. seg_type x = Removed) segs" by simp
    then have "length rest \<le> length segs" by (simp add: length_dropWhile_le)
    moreover have "length (dropWhile (\<lambda>x. seg_type x = Added) rest) \<le> length rest"
      by (rule length_dropWhile_le)
    ultimately show ?thesis by simp
  qed
  then show "(dropWhile (\<lambda>x. seg_type x = Added) rest, s # segs) \<in> measure length"
    by simp
qed

declare groupSegs.simps(2) [simp del]

definition groupOps :: "jsstring \<Rightarrow> jsstring \<Rightarrow> Op list" where
  "groupOps before after = groupSegs (diffWords before after)"

datatype Decision = Pending | Accept | Decline

text \<open>
  The decision store is a JavaScript object used as a record from op index to decision:
  an association list with one entry per key. \<open>next[idx]\<close> is \<open>map_of next idx\<close>
  (\<open>undefined\<close> is \<open>None\<close>), \<open>{ ...prev, [idx]: decision }\<close> is \<open>AList.update\<close>, and
  \<open>Object.values(next)\<close> is \<open>map snd next\<close>.
\<close>

type_synonym Decisions = "(nat \<times> Decision) list"

definition changeIdxs :: "Op list \<Rightarrow> nat list" where
  "changeIdxs ops = filter (\<lambda>idx. is_ChangeOp (ops ! idx)) [0..<length ops]"

definition initDecisions :: "Op list \<Rightarrow> Decisions" where
  "initDecisions ops = map (\<lambda>i. (i, Pending)) (changeIdxs ops)"

text \<open>
  \<open>commit\<close> calls \<open>onChange(merged, allResolved)\<close>; the model returns the two arguments.
\<close>

definition mergedPiece :: "Op \<Rightarrow> Decision option \<Rightarrow> jsstring" where
  "mergedPiece op d =
     (case op of
        EqualOp v \<Rightarrow> v
      | ChangeOp bf af \<Rightarrow>
          (if d = None \<or> d = Some Pending then bf
           else if d = Some Accept then af else bf))"

definition commit :: "Op list \<Rightarrow> Decisions \<Rightarrow> jsstring \<times> bool" where
  "commit ops next =
     (concat (map (\<lambda>idx. mergedPiece (ops ! idx) (map_of next idx)) [0..<length ops]),
      list_all (\<lambda>v. v \<noteq> Pending) (map snd next))"

definition setDecision :: "Decisions \<Rightarrow> nat \<Rightarrow> Decision \<Rightarrow> Decisions" where
  "setDecision prev idx decision = AList.update idx decision prev"

text \<open>
  The rendered children of the \<open>span\<close> of one op: plain text, the \<open>px-1\<close> span of a decided
  op, the struck-through red span (with its \<open>title\<close>), the green marked span, and the pair of
  accept and decline buttons of op \<open>idx\<close>.
\<close>

datatype Node =
    Plain jsstring
  | Padded jsstring
  | Struck jsstring jsstring
  | Marked jsstring
  | Buttons nat

text \<open>
  \<open>clipMiddle\<close> with its default \<open>max = 60\<close>; \<open>text.slice(-30)\<close> is the whole text when that
  is shorter than 30 code units. The ellipsis is U+2026.
\<close>

definition clipMiddle :: "jsstring \<Rightarrow> jsstring" where
  "clipMiddle txt =
     (if length txt \<le> 60 \<and> 0x0A \<notin> set txt then txt
      else take (60 div 2) txt @ [0x2026] @ drop (length txt - 60 div 2) txt)"

text \<open>
  \<open>op.after.match(/(\s*)$/)\<close> always matches: the leftmost position from which only
  whitespace follows up to the end of the string. Group 1 is the maximal whitespace suffix.
\<close>

definition trailingSpace :: "jsstring \<Rightarrow> jsstring" where
  "trailingSpace s = rev (takeWhile is_space (rev s))"

definition addCore :: "jsstring \<Rightarrow> jsstring" where
  "addCore af = take (length af - length (trailingSpace af)) af"

definition renderOp :: "Decisions \<Rightarrow> nat \<Rightarrow> Op \<Rightarrow> Node list" where
  "renderOp decisions idx op =
     (case op of
        EqualOp v \<Rightarrow> [Plain v]
      | ChangeOp bf af \<Rightarrow>
          (let state = map_of decisions idx; trailing = trailingSpace af
           in if state = Some Accept
              then [Padded (addCore af)] @ (if trailing \<noteq> [] then [Plain trailing] else [])
              else if state = Some Decline
              then [Padded bf]
              else (if bf \<noteq> [] then [Struck bf (clipMiddle bf)] else [])
                 @ (if addCore af \<noteq> [] then [Marked (addCore af)] else [])
                 @ (if trailing \<noteq> [] then [Plain trailing] else [])
                 @ [Buttons idx]))"

definition renderOps :: "Op list \<Rightarrow> Decisions \<Rightarrow> Node list list" where
  "renderOps ops decisions = map (\<lambda>idx. renderOp decisions idx (ops ! idx)) [0..<length ops]"

text \<open>The text a node shows.\<close>

fun nodeText :: "Node \<Rightarrow> jsstring" where
  "nodeText (Plain v) = v"
| "nodeText (Padded v) = v"
| "nodeText (Struck title v) = v"
| "nodeText (Marked v) = v"
| "nodeText (Buttons idx) = []"

text \<open>
  One instance of the component: the \<open>key\<close> its parent gave it, the memoised \<open>ops\<close> and the
  \<open>decisions\<close> state. On mount \<open>useState\<close> runs its initialiser; on a later render of the same
  instance \<open>useMemo\<close> recomputes \<open>ops\<close> from the current \<open>before\<close> and \<open>after\<close> while the state
  cell \<open>decisions\<close> is kept.
\<close>

record Resolver =
  r_key :: jsstring
  r_ops :: "Op list"
  r_decisions :: Decisions

definition mountResolver :: "jsstring \<Rightarrow> jsstring \<Rightarrow> jsstring \<Rightarrow> Resolver" where
  "mountResolver k before after =
     \<lparr>r_key = k, r_ops = groupOps before after,
      r_decisions = initDecisions (groupOps before after)\<rparr>"

definition rerenderResolver :: "Resolver \<Rightarrow> jsstring \<Rightarrow> jsstring \<Rightarrow> Resolver" where
  "rerenderResolver r before after = r\<lparr>r_ops := groupOps before after\<rparr>"

text \<open>
  A click on the accept or decline button of op \<open>idx\<close>. The buttons exist only in the
  rendering of a change-op whose state is neither accept nor decline, and pass \<open>'accept'\<close> or
  \<open>'decline'\<close>. The result is the instance with its new decisions and the arguments of the
  \<open>onChange\<close> call made by \<open>commit\<close>.
\<close>

definition hasButtons :: "Resolver \<Rightarrow> nat \<Rightarrow> bool" where
  "hasButtons r idx \<longleftrightarrow>
     idx < length (r_ops r) \<and> is_ChangeOp (r_ops r ! idx) \<and>
     map_of (r_decisions r) idx \<noteq> Some Accept \<and> map_of (r_decisions r) idx \<noteq> Some Decline"

definition clickDecision :: "Resolver \<Rightarrow> nat \<Rightarrow> Decision \<Rightarrow> (Resolver \<times> jsstring \<times> bool) option" where
  "clickDecision r idx decision =
     (if hasButtons r idx \<and> decision \<noteq> Pending
      then (let next = setDecision (r_decisions r) idx decision
            in Some (r\<lparr>r_decisions := next\<rparr>, commit (r_ops r) next))
      else None)"

section \<open>The \<open>Contact\<close> component\<close>

datatype FieldStatus = StUnchanged | StPending | StApplied | StDismissed

record ContactData =
  cd_text :: jsstring
  cd_email :: jsstring
  cd_subject :: jsstring

record StatusMap =
  st_email :: FieldStatus
  st_subject :: FieldStatus
  st_text :: FieldStatus

text \<open>
  The state of the component: its five \<open>useState\<close> cells and, for each of the three places
  where an \<open>InlineDiffResolver\<close> can be rendered, the instance mounted there.
\<close>

record Contact =
  recipient :: jsstring
  subject :: jsstring
  body :: jsstring
  pendingChanges :: "ContactData option"
  status :: StatusMap
  emailResolver :: "Resolver option"
  subjectResolver :: "Resolver option"
  textResolver :: "Resolver option"

definition initialContact :: Contact where
  "initialContact =
     \<lparr>recipient = [], subject = [], body = [], pendingChanges = None,
      status = \<lparr>st_email = StUnchanged, st_subject = StUnchanged, st_text = StUnchanged\<rparr>,
      emailResolver = None, subjectResolver = None, textResolver = None\<rparr>"

text \<open>
  The three tracked fields. The source repeats the same code for each of them, on
  \<open>recipient\<close> / \<open>email\<close>, on \<open>subject\<close> and on \<open>body\<close> / \<open>text\<close>; the accessors below select
  the state cell, the proposal entry, the status entry and the resolver of a field.
\<close>

datatype Field = EmailField | SubjectField | TextField

fun current :: "Field \<Rightarrow> Contact \<Rightarrow> jsstring" where
  "current EmailField s = recipient s"
| "current SubjectField s = subject s"
| "current TextField s = body s"

fun setCurrent :: "Field \<Rightarrow> jsstring \<Rightarrow> Contact \<Rightarrow> Contact" where
  "setCurrent EmailField v s = s\<lparr>recipient := v\<rparr>"
| "setCurrent SubjectField v s = s\<lparr>subject := v\<rparr>"
| "setCurrent TextField v s = s\<lparr>body := v\<rparr>"

fun proposed :: "Field \<Rightarrow> ContactData \<Rightarrow> jsstring" where
  "proposed EmailField d = cd_email d"
| "proposed SubjectField d = cd_subject d"
| "proposed TextField d = cd_text d"

fun fieldStatus :: "Field \<Rightarrow> StatusMap \<Rightarrow> FieldStatus" where
  "fieldStatus EmailField st = st_email st"
| "fieldStatus SubjectField st = st_subject st"
| "fieldStatus TextField st = st_text st"

fun setFieldStatus :: "Field \<Rightarrow> FieldStatus \<Rightarrow> StatusMap \<Rightarrow> StatusMap" where
  "setFieldStatus EmailField v st = st\<lparr>st_email := v\<rparr>"
| "setFieldStatus SubjectField v st = st\<lparr>st_subject := v\<rparr>"
| "setFieldStatus TextField v st = st\<lparr>st_text := v\<rparr>"

fun resolver :: "Field \<Rightarrow> Contact \<Rightarrow> Resolver option" where
  "resolver EmailField s = emailResolver s"
| "resolver SubjectField s = subjectResolver s"
| "resolver TextField s = textResolver s"

fun setResolver :: "Field \<Rightarrow> Resolver option \<Rightarrow> Contact \<Rightarrow> Contact" where
  "setResolver EmailField r s = s\<lparr>emailResolver := r\<rparr>"
| "setResolver SubjectField r s = s\<lparr>subjectResolver := r\<rparr>"
| "setResolver TextField r s = s\<lparr>textResolver := r\<rparr>"

text \<open>
  The effect on \<open>incomingContactData\<close>, then \<open>resolveIfDone\<close>, \<open>acceptAll\<close> and \<open>declineAll\<close>.
  The call \<open>onContactDataUpdate?.(pendingChanges)\<close> in \<open>acceptAll\<close> hands the proposal to the
  parent, which stores the object it already holds; it changes nothing in this component.
\<close>

definition onIncoming :: "ContactData option \<Rightarrow> Contact \<Rightarrow> Contact" where
  "onIncoming incomingContactData s =
     (case incomingContactData of
        None \<Rightarrow> s
      | Some d \<Rightarrow>
          s\<lparr>pendingChanges := Some d,
            status :=
              \<lparr>st_email = (if recipient s \<noteq> cd_email d then StPending else StUnchanged),
               st_subject = (if subject s \<noteq> cd_subject d then StPending else StUnchanged),
               st_text = (if body s \<noteq> cd_text d then StPending else StUnchanged)\<rparr>\<rparr>)"

definition anyPending :: "StatusMap \<Rightarrow> bool" where
  "anyPending nextStatus \<longleftrightarrow>
     list_ex (\<lambda>x. x = StPending) [st_email nextStatus, st_subject nextStatus, st_text nextStatus]"

definition resolveIfDone :: "StatusMap \<Rightarrow> Contact \<Rightarrow> Contact" where
  "resolveIfDone nextStatus s =
     (if \<not> anyPending nextStatus then s\<lparr>pendingChanges := None\<rparr> else s)"

definition acceptAll :: "Contact \<Rightarrow> Contact" where
  "acceptAll s =
     (case pendingChanges s of
        None \<Rightarrow> s
      | Some pc \<Rightarrow>
          s\<lparr>recipient := cd_email pc, subject := cd_subject pc, body := cd_text pc,
            status := \<lparr>st_email = StApplied, st_subject = StApplied, st_text = StApplied\<rparr>,
            pendingChanges := None\<rparr>)"

definition declineAll :: "Contact \<Rightarrow> Contact" where
  "declineAll s =
     (case pendingChanges s of
        None \<Rightarrow> s
      | Some pc \<Rightarrow>
          s\<lparr>status := \<lparr>st_email = StDismissed, st_subject = StDismissed, st_text = StDismissed\<rparr>,
            pendingChanges := None\<rparr>)"

text \<open>
  The \<open>onChange\<close> handler given to the resolver of field \<open>f\<close>; \<open>pc\<close> is the \<open>pendingChanges\<close>
  of the render that created the handler.
\<close>

definition onChange :: "Field \<Rightarrow> ContactData \<Rightarrow> jsstring \<Rightarrow> bool \<Rightarrow> Contact \<Rightarrow> Contact" where
  "onChange f pc merged allResolved s =
     (let s1 = setCurrent f merged s;
          nextState = (if allResolved
                       then (if merged = proposed f pc then StApplied else StDismissed)
                       else StPending);
          next = setFieldStatus f nextState (status s1);
          s2 = (if nextState \<noteq> StPending then resolveIfDone next s1 else s1)
      in s2\<lparr>status := next\<rparr>)"

text \<open>
  Rendering. A field shows its resolver while a proposal is stored and the field is pending,
  and its plain input otherwise. React keeps the instance at a place while the element there
  has the same key, and mounts a new one when the key differs or nothing was there.
\<close>

definition showsResolver :: "Field \<Rightarrow> Contact \<Rightarrow> bool" where
  "showsResolver f s \<longleftrightarrow> pendingChanges s \<noteq> None \<and> fieldStatus f (status s) = StPending"

fun keyPrefix :: "Field \<Rightarrow> jsstring" where
  "keyPrefix EmailField = js ''email-''"
| "keyPrefix SubjectField = js ''subject-''"
| "keyPrefix TextField = js ''text-''"

definition resolverKey :: "Field \<Rightarrow> jsstring \<Rightarrow> jsstring \<Rightarrow> jsstring" where
  "resolverKey f before after = keyPrefix f @ before @ js ''|'' @ after"

definition reconcile :: "Resolver option \<Rightarrow> jsstring \<Rightarrow> jsstring \<Rightarrow> jsstring \<Rightarrow> Resolver" where
  "reconcile old k before after =
     (case old of
        None \<Rightarrow> mountResolver k before after
      | Some r \<Rightarrow>
          (if r_key r = k then rerenderResolver r before after
           else mountResolver k before after))"

definition renderField :: "Field \<Rightarrow> Contact \<Rightarrow> Contact" where
  "renderField f s =
     (case pendingChanges s of
        None \<Rightarrow> setResolver f None s
      | Some pc \<Rightarrow>
          (if fieldStatus f (status s) = StPending
           then setResolver f
                  (Some (reconcile (resolver f s)
                     (resolverKey f (current f s) (proposed f pc)) (current f s) (proposed f pc))) s
           else setResolver f None s))"

definition render :: "Contact \<Rightarrow> Contact" where
  "render s = renderField TextField (renderField SubjectField (renderField EmailField s))"

text \<open>
  What can happen to the component: a new proposal arrives, one of the two global buttons is
  clicked, a button of a resolver is clicked, or the user types into the input of a field
  that shows no resolver. An event that the current rendering does not offer changes nothing.
  Events are handled one at a time, and the component is rendered after each of them.
\<close>

datatype Event =
    Incoming ContactData
  | AcceptAll
  | DeclineAll
  | Decide Field nat Decision
  | Input Field jsstring

definition decide :: "Field \<Rightarrow> nat \<Rightarrow> Decision \<Rightarrow> Contact \<Rightarrow> Contact" where
  "decide f idx decision s =
     (case (pendingChanges s, resolver f s) of
        (Some pc, Some r) \<Rightarrow>
          (case clickDecision r idx decision of
             None \<Rightarrow> s
           | Some (r', merged, allResolved) \<Rightarrow>
               onChange f pc merged allResolved (setResolver f (Some r') s))
      | _ \<Rightarrow> s)"

fun handle :: "Event \<Rightarrow> Contact \<Rightarrow> Contact" where
  "handle (Incoming d) s = onIncoming (Some d) s"
| "handle AcceptAll s = acceptAll s"
| "handle DeclineAll s = declineAll s"
| "handle (Decide f idx decision) s = decide f idx decision s"
| "handle (Input f v) s = (if showsResolver f s then s else setCurrent f v s)"

definition step :: "Contact \<Rightarrow> Event \<Rightarrow> Contact" where
  "step s e = render (handle e s)"

definition run :: "Event list \<Rightarrow> Contact" where
  "run es = foldl step (render initialContact) es"

section \<open>Projections of segment and operation lists\<close>

text \<open>
  The before-side of a segment list is the text of its equal and removed segments, the
  after-side that of its equal and added segments; likewise for operations.
\<close>

definition segsBefore :: "DiffSegment list \<Rightarrow> jsstring" where
  "segsBefore segs = concat (map seg_value (filter (\<lambda>s. seg_type s \<noteq> Added) segs))"

definition segsAfter :: "DiffSegment list \<Rightarrow> jsstring" where
  "segsAfter segs = concat (map seg_value (filter (\<lambda>s. seg_type s \<noteq> Removed) segs))"

fun beforeSide :: "Op \<Rightarrow> jsstring" where
  "beforeSide (EqualOp v) = v"
| "beforeSide (ChangeOp bf af) = bf"

fun afterSide :: "Op \<Rightarrow> jsstring" where
  "afterSide (EqualOp v) = v"
| "afterSide (ChangeOp bf af) = af"

section \<open>The LCS score\<close>

text \<open>
  The score of the longest common subsequence of two token lists, by the recurrence the
  table is filled with; \<open>filled a b i j dp\<close> says that \<open>dp\<close> has the shape of the table of
  \<open>a\<close> and \<open>b\<close> and holds the score at every cell the loops have passed when they are at
  row \<open>i\<close>, column \<open>j\<close>.
\<close>

fun lcsLen :: "'a list \<Rightarrow> 'a list \<Rightarrow> nat" where
  "lcsLen [] ys = 0"
| "lcsLen (x # xs) [] = 0"
| "lcsLen (x # xs) (y # ys) =
     (if x = y then lcsLen xs ys + 1 else max (lcsLen xs (y # ys)) (lcsLen (x # xs) ys))"

definition tableShape :: "nat \<Rightarrow> nat \<Rightarrow> nat list list \<Rightarrow> bool" where
  "tableShape m n dp \<longleftrightarrow>
     length dp = m + 1 \<and> (\<forall>r \<le> m. length (dp ! r) = n + 1) \<and> (\<forall>r \<le> m. dp ! r ! n = 0)"

definition filled :: "jsstring list \<Rightarrow> jsstring list \<Rightarrow> nat \<Rightarrow> nat \<Rightarrow> nat list list \<Rightarrow> bool" where
  "filled a b i j dp \<longleftrightarrow>
     tableShape (length a) (length b) dp \<and>
     (\<forall>r c. r \<le> length a \<and> c \<le> length b \<and> (i < r \<or> (r = i \<and> j \<le> c))
        \<longrightarrow> dp ! r ! c = lcsLen (drop r a) (drop c b))"

section \<open>Resolvers across renders\<close>

text \<open>
  The \<open>(before, after)\<close> pair a field gives to its resolver, the agreement of a resolver
  with such a pair, and the resolver that a render puts at the place of a field.
\<close>

definition pairOf :: "Field \<Rightarrow> Contact \<Rightarrow> (jsstring \<times> jsstring) option" where
  "pairOf f s = (case pendingChanges s of None \<Rightarrow> None | Some pc \<Rightarrow> Some (current f s, proposed f pc))"

definition inSync :: "Resolver \<Rightarrow> jsstring \<Rightarrow> jsstring \<Rightarrow> bool" where
  "inSync r before after \<longleftrightarrow>
     r_ops r = groupOps before after \<and> map fst (r_decisions r) = changeIdxs (r_ops r)"

definition slot :: "Field \<Rightarrow> Contact \<Rightarrow> Resolver option" where
  "slot f t =
     (case pendingChanges t of
        None \<Rightarrow> None
      | Some pc \<Rightarrow>
          (if fieldStatus f (status t) = StPending
           then Some (reconcile (resolver f t)
                  (resolverKey f (current f t) (proposed f pc)) (current f t) (proposed f pc))
           else None))"

text \<open>What holds of a mounted resolver after a render.\<close>

definition mounted :: "Field \<Rightarrow> Contact \<Rightarrow> Resolver \<Rightarrow> bool" where
  "mounted f s r \<longleftrightarrow>
     (\<exists>pc. pendingChanges s = Some pc \<and> fieldStatus f (status s) = StPending
        \<and> r_key r = resolverKey f (current f s) (proposed f pc)
        \<and> inSync r (current f s) (proposed f pc))"

definition rendered :: "Contact \<Rightarrow> bool" where
  "rendered s \<longleftrightarrow>
     (\<forall>f. case resolver f s of None \<Rightarrow> \<not> showsResolver f s | Some r \<Rightarrow> mounted f s r)"

text \<open>What holds between a rendered state and the state its handler leaves.\<close>

definition carried :: "Field \<Rightarrow> Contact \<Rightarrow> Contact \<Rightarrow> bool" where
  "carried f s t \<longleftrightarrow>
     (case resolver f t of
        None \<Rightarrow> True
      | Some r \<Rightarrow>
          (\<exists>b0 a0. pairOf f s = Some (b0, a0) \<and> r_key r = resolverKey f b0 a0 \<and> inSync r b0 a0
             \<and> (\<forall>b1 a1. pairOf f t = Some (b1, a1) \<longrightarrow> b1 = b0 \<or> a1 = a0)))"

text \<open>A stored proposal is the only way for a field to be pending.\<close>

definition proposalInv :: "Contact \<Rightarrow> bool" where
  "proposalInv s \<longleftrightarrow> (pendingChanges s = None \<longrightarrow> \<not> anyPending (status s))"

section \<open>Example data\<close>

definition exampleProposal :: ContactData where
  "exampleProposal = \<lparr>cd_text = js ''c d'', cd_email = js ''a@x.com'', cd_subject = js ''Hi''\<rparr>"

definition exampleContact :: Contact where
  "exampleContact = run [Input TextField (js ''a b''), Incoming exampleProposal]"

section \<open>Properties\<close>

lemma concat_tokenize: "concat (tokenize s) = s"
  by (induction s rule: tokenize.induct) simp_all

lemma segsAfter_append: "segsAfter (xs @ ys) = segsAfter xs @ segsAfter ys"
  by (simp add: segsAfter_def)

lemma segsBefore_append: "segsBefore (xs @ ys) = segsBefore xs @ segsBefore ys"
  by (simp add: segsBefore_def)

lemma segsAfter_push:
  "segsAfter (push segs ty v) = segsAfter segs @ (if ty = Removed then [] else v)"
proof (cases "v \<noteq> [] \<and> segs \<noteq> [] \<and> seg_type (last segs) = ty")
  case True
  then have "segs = butlast segs @ [last segs]" by simp
  then have "segsAfter segs = segsAfter (butlast segs) @ segsAfter [last segs]"
    by (metis segsAfter_append)
  with True show ?thesis
    by (simp add: push_def segsAfter_append) (simp add: segsAfter_def)
next
  case False
  then show ?thesis
    by (auto simp: push_def segsAfter_append) (simp_all add: segsAfter_def)
qed

lemma segsBefore_push:
  "segsBefore (push segs ty v) = segsBefore segs @ (if ty = Added then [] else v)"
proof (cases "v \<noteq> [] \<and> segs \<noteq> [] \<and> seg_type (last segs) = ty")
  case True
  then have "segs = butlast segs @ [last segs]" by simp
  then have "segsBefore segs = segsBefore (butlast segs) @ segsBefore [last segs]"
    by (metis segsBefore_append)
  with True show ?thesis
    by (simp add: push_def segsBefore_append) (simp add: segsBefore_def)
next
  case False
  then show ?thesis
    by (auto simp: push_def segsBefore_append) (simp_all add: segsBefore_def)
qed

lemma segsAfter_fold_push:
  "segsAfter (fold (\<lambda>t s. push s ty t) ts segs)
     = segsAfter segs @ (if ty = Removed then [] else concat ts)"
  by (induction ts arbitrary: segs) (simp_all add: segsAfter_push)

lemma segsBefore_fold_push:
  "segsBefore (fold (\<lambda>t s. push s ty t) ts segs)
     = segsBefore segs @ (if ty = Added then [] else concat ts)"
  by (induction ts arbitrary: segs) (simp_all add: segsBefore_push)

lemma walk_done:
  "\<not> (i < length a \<and> j < length b) \<Longrightarrow>
     walk a b dp i j segs = drainAdded b j (drainRemoved a i segs)"
  by (subst walk.simps) (simp only: if_False)

lemma walk_equal:
  "i < length a \<Longrightarrow> j < length b \<Longrightarrow> a ! i = b ! j \<Longrightarrow>
     walk a b dp i j segs = walk a b dp (i + 1) (j + 1) (push segs Equal (a ! i))"
  by (subst walk.simps) (simp only: if_True simp_thms)

lemma walk_removed:
  "i < length a \<Longrightarrow> j < length b \<Longrightarrow> a ! i \<noteq> b ! j \<Longrightarrow> dp ! (i + 1) ! j \<ge> dp ! i ! (j + 1) \<Longrightarrow>
     walk a b dp i j segs = walk a b dp (i + 1) j (push segs Removed (a ! i))"
  by (subst walk.simps) (simp only: if_True if_False simp_thms)

lemma walk_added:
  "i < length a \<Longrightarrow> j < length b \<Longrightarrow> a ! i \<noteq> b ! j \<Longrightarrow> \<not> dp ! (i + 1) ! j \<ge> dp ! i ! (j + 1) \<Longrightarrow>
     walk a b dp i j segs = walk a b dp i (j + 1) (push segs Added (b ! j))"
  by (subst walk.simps) (simp only: if_True if_False simp_thms)

lemma segsAfter_walk:
  "segsAfter (walk a b dp i j segs) = segsAfter segs @ concat (drop j b)"
proof (induction a b dp i j segs rule: walk.induct)
  case (1 a b dp i j segments)
  show ?case
  proof (cases "i < length a \<and> j < length b")
    case False
    then show ?thesis
      by (simp add: walk_done drainAdded_def drainRemoved_def segsAfter_fold_push)
  next
    case True
    then have dj: "drop j b = b ! j # drop (Suc j) b"
      by (simp add: Cons_nth_drop_Suc)
    show ?thesis
    proof (cases "a ! i = b ! j")
      case eq: True
      have "segsAfter (walk a b dp (i + 1) (j + 1) (push segments Equal (a ! i)))
          = segsAfter (push segments Equal (a ! i)) @ concat (drop (j + 1) b)"
        using 1(1) True eq by blast
      with True eq show ?thesis
        by (simp add: walk_equal segsAfter_push dj)
    next
      case ne: False
      show ?thesis
      proof (cases "dp ! (i + 1) ! j \<ge> dp ! i ! (j + 1)")
        case ge: True
        have "segsAfter (walk a b dp (i + 1) j (push segments Removed (a ! i)))
          = segsAfter (push segments Removed (a ! i)) @ concat (drop j b)"
          using 1(2) True ne ge by blast
        with True ne ge show ?thesis
          by (simp add: walk_removed segsAfter_push)
      next
        case lt: False
        have "segsAfter (walk a b dp i (j + 1) (push segments Added (b ! j)))
          = segsAfter (push segments Added (b ! j)) @ concat (drop (j + 1) b)"
          using 1(3) True ne lt by blast
        with True ne lt show ?thesis
          by (simp add: walk_added segsAfter_push dj)
      qed
    qed
  qed
qed

lemma segsBefore_walk:
  "segsBefore (walk a b dp i j segs) = segsBefore segs @ concat (drop i a)"
proof (induction a b dp i j segs rule: walk.induct)
  case (1 a b dp i j segments)
  show ?case
  proof (cases "i < length a \<and> j < length b")
    case False
    then show ?thesis
      by (simp add: walk_done drainAdded_def drainRemoved_def segsBefore_fold_push)
  next
    case True
    then have di: "drop i a = a ! i # drop (Suc i) a"
      by (simp add: Cons_nth_drop_Suc)
    show ?thesis
    proof (cases "a ! i = b ! j")
      case eq: True
      have "segsBefore (walk a b dp (i + 1) (j + 1) (push segments Equal (a ! i)))
          = segsBefore (push segments Equal (a ! i)) @ concat (drop (i + 1) a)"
        using 1(1) True eq by blast
      with True eq show ?thesis
        by (simp add: walk_equal segsBefore_push di)
    next
      case ne: False
      show ?thesis
      proof (cases "dp ! (i + 1) ! j \<ge> dp ! i ! (j + 1)")
        case ge: True
        have "segsBefore (walk a b dp (i + 1) j (push segments Removed (a ! i)))
          = segsBefore (push segments Removed (a ! i)) @ concat (drop (i + 1) a)"
          using 1(2) True ne ge by blast
        with True ne ge show ?thesis
          by (simp add: walk_removed segsBefore_push di)
      next
        case lt: False
        have "segsBefore (walk a b dp i (j + 1) (push segments Added (b ! j)))
          = segsBefore (push segments Added (b ! j)) @ concat (drop i a)"
          using 1(3) True ne lt by blast
        with True ne lt show ?thesis
          by (simp add: walk_added segsBefore_push)
      qed
    qed
  qed
qed

lemma segsAfter_diffWords: "segsAfter (diffWords before after) = after"
  by (simp add: diffWords_def Let_def segsAfter_walk concat_tokenize) (simp add: segsAfter_def)

lemma segsBefore_diffWords: "segsBefore (diffWords before after) = before"
  by (simp add: diffWords_def Let_def segsBefore_walk concat_tokenize) (simp add: segsBefore_def)

lemma segsAfter_takeWhile_Removed:
  "segsAfter (takeWhile (\<lambda>x. seg_type x = Removed) xs) = []"
  by (induction xs) (auto simp: segsAfter_def)

lemma segsAfter_takeWhile_Added:
  "segsAfter (takeWhile (\<lambda>x. seg_type x = Added) xs)
     = concat (map seg_value (takeWhile (\<lambda>x. seg_type x = Added) xs))"
  by (induction xs) (auto simp: segsAfter_def)

lemma segsBefore_takeWhile_Removed:
  "segsBefore (takeWhile (\<lambda>x. seg_type x = Removed) xs)
     = concat (map seg_value (takeWhile (\<lambda>x. seg_type x = Removed) xs))"
  by (induction xs) (auto simp: segsBefore_def)

lemma segsBefore_takeWhile_Added:
  "segsBefore (takeWhile (\<lambda>x. seg_type x = Added) xs) = []"
  by (induction xs) (auto simp: segsBefore_def)

lemma segsAfter_split:
  "segsAfter xs = segsAfter (takeWhile P xs) @ segsAfter (dropWhile P xs)"
  by (simp only: segsAfter_append [symmetric] takeWhile_dropWhile_id)

lemma segsBefore_split:
  "segsBefore xs = segsBefore (takeWhile P xs) @ segsBefore (dropWhile P xs)"
  by (simp only: segsBefore_append [symmetric] takeWhile_dropWhile_id)

lemma groupSegs_equal:
  "seg_type s = Equal \<Longrightarrow> groupSegs (s # segs) = EqualOp (seg_value s) # groupSegs segs"
  by (subst groupSegs.simps(2)) (simp only: if_True simp_thms)

lemma groupSegs_change:
  "seg_type s \<noteq> Equal \<Longrightarrow>
   groupSegs (s # segs) =
     (let removed = concat (map seg_value (takeWhile (\<lambda>x. seg_type x = Removed) (s # segs)));
          rest = dropWhile (\<lambda>x. seg_type x = Removed) (s # segs);
          added = concat (map seg_value (takeWhile (\<lambda>x. seg_type x = Added) rest))
      in (if removed \<noteq> [] \<or> added \<noteq> [] then [ChangeOp removed added] else [])
           @ groupSegs (dropWhile (\<lambda>x. seg_type x = Added) rest))"
  by (subst groupSegs.simps(2)) (simp only: if_False simp_thms)

lemma after_groupSegs: "concat (map afterSide (groupSegs segs)) = segsAfter segs"
proof (induction segs rule: groupSegs.induct)
  case 1
  show ?case by (simp add: segsAfter_def)
next
  case (2 s segs)
  show ?case
  proof (cases "seg_type s = Equal")
    case True
    with 2(1) show ?thesis by (simp add: groupSegs_equal segsAfter_def)
  next
    case False
    define removed where
      "removed = concat (map seg_value (takeWhile (\<lambda>x. seg_type x = Removed) (s # segs)))"
    define rest where "rest = dropWhile (\<lambda>x. seg_type x = Removed) (s # segs)"
    define added where
      "added = concat (map seg_value (takeWhile (\<lambda>x. seg_type x = Added) rest))"
    define rest' where "rest' = dropWhile (\<lambda>x. seg_type x = Added) rest"
    have ih: "concat (map afterSide (groupSegs rest')) = segsAfter rest'"
      unfolding rest'_def rest_def using 2(2) [OF False refl refl refl] .
    have unfold: "groupSegs (s # segs) =
        (if removed \<noteq> [] \<or> added \<noteq> [] then [ChangeOp removed added] else []) @ groupSegs rest'"
      unfolding removed_def added_def rest'_def rest_def
      by (simp only: groupSegs_change [OF False] Let_def)
    have "segsAfter (s # segs) = segsAfter (takeWhile (\<lambda>x. seg_type x = Removed) (s # segs)) @ segsAfter rest"
      unfolding rest_def by (rule segsAfter_split)
    also have "segsAfter rest = segsAfter (takeWhile (\<lambda>x. seg_type x = Added) rest) @ segsAfter rest'"
      unfolding rest'_def by (rule segsAfter_split)
    finally have split: "segsAfter (s # segs) = added @ segsAfter rest'"
      unfolding removed_def added_def
      by (simp only: segsAfter_takeWhile_Removed segsAfter_takeWhile_Added append_Nil append_Nil2)
    have "concat (map afterSide (groupSegs (s # segs))) = added @ concat (map afterSide (groupSegs rest'))"
      unfolding unfold by (cases "removed \<noteq> [] \<or> added \<noteq> []") simp_all
    with ih split show ?thesis by (simp only:)
  qed
qed

lemma before_groupSegs: "concat (map beforeSide (groupSegs segs)) = segsBefore segs"
proof (induction segs rule: groupSegs.induct)
  case 1
  show ?case by (simp add: segsBefore_def)
next
  case (2 s segs)
  show ?case
  proof (cases "seg_type s = Equal")
    case True
    with 2(1) show ?thesis by (simp add: groupSegs_equal segsBefore_def)
  next
    case False
    define removed where
      "removed = concat (map seg_value (takeWhile (\<lambda>x. seg_type x = Removed) (s # segs)))"
    define rest where "rest = dropWhile (\<lambda>x. seg_type x = Removed) (s # segs)"
    define added where
      "added = concat (map seg_value (takeWhile (\<lambda>x. seg_type x = Added) rest))"
    define rest' where "rest' = dropWhile (\<lambda>x. seg_type x = Added) rest"
    have ih: "concat (map beforeSide (groupSegs rest')) = segsBefore rest'"
      unfolding rest'_def rest_def using 2(2) [OF False refl refl refl] .
    have unfold: "groupSegs (s # segs) =
        (if removed \<noteq> [] \<or> added \<noteq> [] then [ChangeOp removed added] else []) @ groupSegs rest'"
      unfolding removed_def added_def rest'_def rest_def
      by (simp only: groupSegs_change [OF False] Let_def)
    have "segsBefore (s # segs) = segsBefore (takeWhile (\<lambda>x. seg_type x = Removed) (s # segs)) @ segsBefore rest"
      unfolding rest_def by (rule segsBefore_split)
    also have "segsBefore rest = segsBefore (takeWhile (\<lambda>x. seg_type x = Added) rest) @ segsBefore rest'"
      unfolding rest'_def by (rule segsBefore_split)
    finally have split: "segsBefore (s # segs) = removed @ segsBefore rest'"
      unfolding removed_def added_def
      by (simp only: segsBefore_takeWhile_Removed segsBefore_takeWhile_Added append_Nil append_Nil2)
    have "concat (map beforeSide (groupSegs (s # segs))) = removed @ concat (map beforeSide (groupSegs rest'))"
      unfolding unfold by (cases "removed \<noteq> [] \<or> added \<noteq> []") simp_all
    with ih split show ?thesis by (simp only:)
  qed
qed

lemma after_groupOps: "concat (map afterSide (groupOps before after)) = after"
  by (simp add: groupOps_def after_groupSegs segsAfter_diffWords)

lemma before_groupOps: "concat (map beforeSide (groupOps before after)) = before"
  by (simp add: groupOps_def before_groupSegs segsBefore_diffWords)

lemma merged_pieces:
  assumes "\<And>idx. idx < length ops \<Longrightarrow> mergedPiece (ops ! idx) (map_of next idx) = f (ops ! idx)"
  shows "fst (commit ops next) = concat (map f ops)"
proof -
  have "map (\<lambda>idx. mergedPiece (ops ! idx) (map_of next idx)) [0..<length ops]
      = map (\<lambda>idx. f (ops ! idx)) [0..<length ops]"
    using assms by simp
  also have "\<dots> = map f (map ((!) ops) [0..<length ops])"
    by (simp only: map_map comp_def)
  also have "\<dots> = map f ops"
    by (simp only: map_nth)
  finally show ?thesis by (simp add: commit_def)
qed

lemma mem_changeIdxs: "idx \<in> set (changeIdxs ops) \<longleftrightarrow> idx < length ops \<and> is_ChangeOp (ops ! idx)"
  by (auto simp: changeIdxs_def)

text \<open>
  Claim C1. For all strings \<open>before\<close> and \<open>after\<close>: when the decision of every change-op of
  \<open>groupOps before after\<close> is accept, the merged text that \<open>commit\<close> reports is exactly
  \<open>after\<close>; and the concatenation of the after-sides of the operations (the value of an
  equal-op, the \<open>after\<close> of a change-op) is \<open>after\<close>.
\<close>

theorem accept_all_yields_after:
  assumes "\<forall>idx \<in> set (changeIdxs (groupOps before after)). map_of next idx = Some Accept"
  shows "fst (commit (groupOps before after) next) = after
       \<and> concat (map afterSide (groupOps before after)) = after"
proof -
  let ?ops = "groupOps before after"
  have "mergedPiece (?ops ! idx) (map_of next idx) = afterSide (?ops ! idx)"
    if "idx < length ?ops" for idx
  proof (cases "?ops ! idx")
    case (EqualOp v)
    then show ?thesis by (simp add: mergedPiece_def)
  next
    case (ChangeOp bf af)
    with that have "idx \<in> set (changeIdxs ?ops)" by (simp add: mem_changeIdxs)
    with assms have "map_of next idx = Some Accept" by blast
    with ChangeOp show ?thesis by (simp add: mergedPiece_def)
  qed
  then have "fst (commit ?ops next) = concat (map afterSide ?ops)"
    by (rule merged_pieces)
  then show ?thesis by (simp add: after_groupOps)
qed

text \<open>
  Claim C2. For all strings \<open>before\<close> and \<open>after\<close>: when no change-op of
  \<open>groupOps before after\<close> has the decision accept (each one is declined, pending, or has no
  entry in the store, in any mixture), the merged text that \<open>commit\<close> reports is exactly
  \<open>before\<close>; and the concatenation of the before-sides of the operations is \<open>before\<close>.
\<close>

theorem no_accept_yields_before:
  assumes "\<forall>idx \<in> set (changeIdxs (groupOps before after)). map_of next idx \<noteq> Some Accept"
  shows "fst (commit (groupOps before after) next) = before
       \<and> concat (map beforeSide (groupOps before after)) = before"
proof -
  let ?ops = "groupOps before after"
  have "mergedPiece (?ops ! idx) (map_of next idx) = beforeSide (?ops ! idx)"
    if "idx < length ?ops" for idx
  proof (cases "?ops ! idx")
    case (EqualOp v)
    then show ?thesis by (simp add: mergedPiece_def)
  next
    case (ChangeOp bf af)
    with that have "idx \<in> set (changeIdxs ?ops)" by (simp add: mem_changeIdxs)
    with assms have "map_of next idx \<noteq> Some Accept" by blast
    with ChangeOp show ?thesis by (simp add: mergedPiece_def)
  qed
  then have "fst (commit ?ops next) = concat (map beforeSide ?ops)"
    by (rule merged_pieces)
  then show ?thesis by (simp add: before_groupOps)
qed

lemma groupOps_ab_ac:
  "groupOps (js ''a b'') (js ''a c'') = [EqualOp (js ''a ''), ChangeOp (js ''b'') (js ''c'')]"
  by code_simp

lemma groupOps_ab_cd:
  "groupOps (js ''a b'') (js ''c d'')
     = [ChangeOp (js ''a'') (js ''c''), EqualOp (js '' ''), ChangeOp (js ''b'') (js ''d'')]"
  by code_simp

text \<open>The scenario of the specification: one replacement and one insertion.\<close>

lemma groupOps_scenario:
  "groupOps (js ''Dear Professor Smith, I am interested.'')
     (js ''Dear Dr. Smith, I am very interested.'')
     = [EqualOp (js ''Dear ''), ChangeOp (js ''Professor'') (js ''Dr.''),
        EqualOp (js '' Smith, I am ''), ChangeOp [] (js ''very ''),
        EqualOp (js ''interested.'')]"
  by code_simp

theorem accept_all_yields_after_witness:
  "list_all (\<lambda>idx. map_of [(1, Accept)] idx = Some Accept)
     (changeIdxs (groupOps (js ''a b'') (js ''a c'')))
   \<and> fst (commit (groupOps (js ''a b'') (js ''a c'')) [(1, Accept)]) = js ''a c''"
  using accept_all_yields_after [of "js ''a b''" "js ''a c''" "[(1, Accept)]"]
  by (simp add: groupOps_ab_ac changeIdxs_def)

theorem no_accept_yields_before_witness:
  "list_all (\<lambda>idx. map_of [(0, Decline), (2, Pending)] idx \<noteq> Some Accept)
     (changeIdxs (groupOps (js ''a b'') (js ''c d'')))
   \<and> fst (commit (groupOps (js ''a b'') (js ''c d'')) [(0, Decline), (2, Pending)]) = js ''a b''"
  using no_accept_yields_before [of "js ''a b''" "js ''c d''" "[(0, Decline), (2, Pending)]"]
  by (simp add: groupOps_ab_cd changeIdxs_def)

lemma fold_push_same:
  "fold (\<lambda>t s. push s ty t) ts (pre @ [DiffSegment v ty])
     = pre @ [DiffSegment (v @ concat ts) ty]"
  by (induction ts arbitrary: v) (simp_all add: push_def)

lemma fold_push_Nil:
  "fold (\<lambda>t s. push s ty t) ts []
     = (if concat ts = [] then [] else [DiffSegment (concat ts) ty])"
proof (induction ts)
  case Nil
  show ?case by simp
next
  case (Cons t ts)
  show ?case
  proof (cases "t = []")
    case True
    with Cons show ?thesis by (simp add: push_def)
  next
    case False
    then have "fold (\<lambda>t s. push s ty t) (t # ts) []
        = fold (\<lambda>t s. push s ty t) ts ([] @ [DiffSegment t ty])"
      by (simp add: push_def)
    also have "\<dots> = [] @ [DiffSegment (t @ concat ts) ty]"
      by (rule fold_push_same)
    finally show ?thesis using False by simp
  qed
qed

lemma walk_same:
  "walk a a dp i i segs = fold (\<lambda>t s. push s Equal t) (drop i a) segs"
proof (induction "length a - i" arbitrary: i segs)
  case 0
  then show ?case
    by (simp add: walk_done drainAdded_def drainRemoved_def)
next
  case (Suc n)
  then have lt: "i < length a" and n: "n = length a - (i + 1)" by simp_all
  have "walk a a dp i i segs = walk a a dp (i + 1) (i + 1) (push segs Equal (a ! i))"
    by (rule walk_equal [OF lt lt refl])
  also have "\<dots> = fold (\<lambda>t s. push s Equal t) (drop (i + 1) a) (push segs Equal (a ! i))"
    using n by (rule Suc.hyps(1))
  also have "\<dots> = fold (\<lambda>t s. push s Equal t) (drop i a) segs"
    using lt by (simp add: Cons_nth_drop_Suc [symmetric])
  finally show ?case .
qed

lemma diffWords_same:
  "diffWords x x = (if x = [] then [] else [DiffSegment x Equal])"
proof -
  have "diffWords x x = fold (\<lambda>t s. push s Equal t) (tokenize x) []"
    by (simp add: diffWords_def Let_def walk_same)
  then show ?thesis by (simp only: fold_push_Nil concat_tokenize)
qed

lemma diffWords_empty_before:
  "diffWords [] y = (if y = [] then [] else [DiffSegment y Added])"
proof -
  have "diffWords [] y = fold (\<lambda>t s. push s Added t) (tokenize y) []"
    by (simp add: diffWords_def Let_def walk_done drainAdded_def drainRemoved_def)
  then show ?thesis by (simp only: fold_push_Nil concat_tokenize)
qed

lemma diffWords_empty_after:
  "diffWords x [] = (if x = [] then [] else [DiffSegment x Removed])"
proof -
  have "diffWords x [] = fold (\<lambda>t s. push s Removed t) (tokenize x) []"
    by (simp add: diffWords_def Let_def walk_done drainAdded_def drainRemoved_def)
  then show ?thesis by (simp only: fold_push_Nil concat_tokenize)
qed

lemma groupSegs_single_Equal: "groupSegs [DiffSegment x Equal] = [EqualOp x]"
  by (simp add: groupSegs_equal)

lemma groupSegs_single_Added: "y \<noteq> [] \<Longrightarrow> groupSegs [DiffSegment y Added] = [ChangeOp [] y]"
  by (simp add: groupSegs_change Let_def)

lemma groupSegs_single_Removed: "x \<noteq> [] \<Longrightarrow> groupSegs [DiffSegment x Removed] = [ChangeOp x []]"
  by (simp add: groupSegs_change Let_def)

text \<open>
  Claim C5, as the code has it. For every string \<open>x\<close>, \<open>groupOps x x\<close> holds equal-ops only
  and no change-op. For a non-empty \<open>x\<close> it is the single equal-op of \<open>x\<close>; for the empty
  string it is the empty operation list. A non-empty \<open>x\<close> against the empty string gives the
  single change-op whose \<open>after\<close> (respectively \<open>before\<close>) is empty.
\<close>

theorem degenerate_inputs:
  "list_all is_EqualOp (groupOps x x) \<and> changeIdxs (groupOps x x) = [] \<and>
   (x \<noteq> [] \<longrightarrow> groupOps x x = [EqualOp x]) \<and>
   (x = [] \<longrightarrow> groupOps x x = []) \<and>
   (x \<noteq> [] \<longrightarrow> groupOps x [] = [ChangeOp x []] \<and> groupOps [] x = [ChangeOp [] x])"
  by (simp add: groupOps_def diffWords_same diffWords_empty_before diffWords_empty_after
      groupSegs_single_Equal groupSegs_single_Added groupSegs_single_Removed changeIdxs_def)

theorem degenerate_inputs_witness:
  "js ''ab'' \<noteq> [] \<and> groupOps (js ''ab'') (js ''ab'') = [EqualOp (js ''ab'')] \<and>
   groupOps (js ''ab'') [] = [ChangeOp (js ''ab'') []] \<and>
   groupOps [] (js ''ab'') = [ChangeOp [] (js ''ab'')] \<and>
   ([] :: jsstring) = [] \<and> groupOps [] [] = []"
  using degenerate_inputs [of "js ''ab''"] degenerate_inputs [of "[]"]
  by (simp add: js_def)

text \<open>
  The claim as stated asks for a single equal-op whenever the two inputs are identical; two
  empty strings give no operation at all.
\<close>

theorem identical_empty_inputs_counterexample:
  "length (groupOps [] []) \<noteq> 1"
  by (simp add: groupOps_def diffWords_same)

subsection \<open>The LCS table and the tie-break\<close>

lemma lcsLen_Nil2 [simp]: "lcsLen xs [] = 0"
  by (cases xs) simp_all

text \<open>
  \<open>lcsLen xs ys\<close> is the length of a longest common subsequence of \<open>xs\<close> and \<open>ys\<close>: some
  common subsequence has this length and none is longer.
\<close>

lemma lcsLen_attained:
  "\<exists>zs. subseq zs xs \<and> subseq zs ys \<and> length zs = lcsLen xs ys"
proof (induction xs ys rule: lcsLen.induct)
  case (1 ys)
  show ?case by (rule exI [of _ "[]"]) simp
next
  case (2 x xs)
  show ?case by (rule exI [of _ "[]"]) simp
next
  case (3 x xs y ys)
  show ?case
  proof (cases "x = y")
    case True
    with 3(1) obtain zs where "subseq zs xs" "subseq zs ys" "length zs = lcsLen xs ys" by blast
    with True show ?thesis by (intro exI [of _ "x # zs"]) simp
  next
    case False
    show ?thesis
    proof (cases "lcsLen xs (y # ys) \<ge> lcsLen (x # xs) ys")
      case True
      from 3(2) [OF False] obtain zs where "subseq zs xs" "subseq zs (y # ys)"
        "length zs = lcsLen xs (y # ys)" by blast
      with False True show ?thesis by (intro exI [of _ zs]) (simp add: max_def list_emb_Cons)
    next
      case ge: False
      from 3(3) [OF False] obtain zs where "subseq zs (x # xs)" "subseq zs ys"
        "length zs = lcsLen (x # xs) ys" by blast
      with False ge show ?thesis by (intro exI [of _ zs]) (simp add: max_def list_emb_Cons)
    qed
  qed
qed

lemma lcsLen_bound:
  "subseq zs xs \<Longrightarrow> subseq zs ys \<Longrightarrow> length zs \<le> lcsLen xs ys"
proof (induction xs ys arbitrary: zs rule: lcsLen.induct)
  case (1 ys)
  then show ?case by simp
next
  case (2 x xs)
  then show ?case by simp
next
  case (3 x xs y ys)
  show ?case
  proof (cases zs)
    case Nil
    then show ?thesis by simp
  next
    case (Cons z zs')
    have tl: "subseq zs' xs" "subseq zs' ys"
      using "3.prems" Cons by (auto dest: subseq_Cons' simp: subseq_Cons2_iff split: if_splits)
    show ?thesis
    proof (cases "x = y")
      case True
      with 3(1) [OF True tl] Cons show ?thesis by simp
    next
      case False
      show ?thesis
      proof (cases "subseq zs xs")
        case True
        with 3(2) [OF False True "3.prems"(2)] False show ?thesis by simp
      next
        case nx: False
        with "3.prems"(1) Cons have "z = x" by (auto simp: subseq_Cons2_iff split: if_splits)
        with False "3.prems"(2) Cons have "subseq zs ys"
          by (auto simp: subseq_Cons2_iff split: if_splits)
        with 3(3) [OF False "3.prems"(1)] False show ?thesis by simp
      qed
    qed
  qed
qed

lemma lcsLen_drop:
  assumes "i < length a" "j < length b"
  shows "lcsLen (drop i a) (drop j b) =
     (if a ! i = b ! j then lcsLen (drop (i + 1) a) (drop (j + 1) b) + 1
      else max (lcsLen (drop (i + 1) a) (drop j b)) (lcsLen (drop i a) (drop (j + 1) b)))"
proof -
  have a: "drop i a = a ! i # drop (i + 1) a" and b: "drop j b = b ! j # drop (j + 1) b"
    using assms by (simp_all add: Cons_nth_drop_Suc)
  have "lcsLen (drop i a) (drop j b) = lcsLen (a ! i # drop (i + 1) a) (b ! j # drop (j + 1) b)"
    using a b by simp
  also have "\<dots> = (if a ! i = b ! j then lcsLen (drop (i + 1) a) (drop (j + 1) b) + 1
      else max (lcsLen (drop (i + 1) a) (b ! j # drop (j + 1) b))
               (lcsLen (a ! i # drop (i + 1) a) (drop (j + 1) b)))"
    by simp
  finally show ?thesis using a b by simp
qed

lemma lcsCell_value:
  assumes "i < length a" "j < length b" "filled a b i (j + 1) dp"
  shows "(if a ! i = b ! j then dp ! (i + 1) ! (j + 1) + 1
          else max (dp ! (i + 1) ! j) (dp ! i ! (j + 1)))
       = lcsLen (drop i a) (drop j b)"
proof -
  have e: "dp ! r ! c = lcsLen (drop r a) (drop c b)"
    if "r \<le> length a" "c \<le> length b" "i < r \<or> (r = i \<and> j + 1 \<le> c)" for r c
    using assms(3) that unfolding filled_def by blast
  have "dp ! (i + 1) ! (j + 1) = lcsLen (drop (i + 1) a) (drop (j + 1) b)"
    "dp ! (i + 1) ! j = lcsLen (drop (i + 1) a) (drop j b)"
    "dp ! i ! (j + 1) = lcsLen (drop i a) (drop (j + 1) b)"
    using assms(1,2) by (auto intro!: e)
  then show ?thesis using lcsLen_drop [OF assms(1,2)] by simp
qed

lemma lcsCell_nth:
  assumes "i < length dp"
  shows "lcsCell a b i j dp ! r
    = (if r = i then (dp ! i)[j := (if a ! i = b ! j then dp ! (i + 1) ! (j + 1) + 1
          else max (dp ! (i + 1) ! j) (dp ! i ! (j + 1)))] else dp ! r)"
  using assms by (simp add: lcsCell_def)

lemma lcsCell_length: "length (lcsCell a b i j dp) = length dp"
  by (simp add: lcsCell_def)

lemma filled_lcsCell:
  assumes i: "i < length a" and j: "j < length b" and f: "filled a b i (j + 1) dp"
  shows "filled a b i j (lcsCell a b i j dp)"
proof -
  define v where "v = (if a ! i = b ! j then dp ! (i + 1) ! (j + 1) + 1
          else max (dp ! (i + 1) ! j) (dp ! i ! (j + 1)))"
  have v: "v = lcsLen (drop i a) (drop j b)"
    unfolding v_def by (rule lcsCell_value [OF i j f])
  have sh: "length dp = length a + 1" "\<And>r. r \<le> length a \<Longrightarrow> length (dp ! r) = length b + 1"
    "\<And>r. r \<le> length a \<Longrightarrow> dp ! r ! length b = 0"
    using f unfolding filled_def tableShape_def by auto
  have idp: "i < length dp" using i sh(1) by simp
  have row: "lcsCell a b i j dp ! r = (if r = i then (dp ! i)[j := v] else dp ! r)" for r
    unfolding v_def by (rule lcsCell_nth [OF idp])
  have cell: "lcsCell a b i j dp ! r ! c = (if r = i \<and> c = j then v else dp ! r ! c)"
    if "r \<le> length a" "c \<le> length b" for r c
    using that sh(2) [of i] i by (simp add: row nth_list_update)
  have shape: "tableShape (length a) (length b) (lcsCell a b i j dp)"
    unfolding tableShape_def
  proof (intro conjI allI impI)
    show "length (lcsCell a b i j dp) = length a + 1" by (simp add: lcsCell_length sh(1))
  next
    fix r assume "r \<le> length a"
    then show "length (lcsCell a b i j dp ! r) = length b + 1" by (simp add: row sh(2))
  next
    fix r assume r: "r \<le> length a"
    then have "lcsCell a b i j dp ! r ! length b = dp ! r ! length b"
      using j by (simp add: cell)
    then show "lcsCell a b i j dp ! r ! length b = 0" using r by (simp add: sh(3))
  qed
  have old: "dp ! r ! c = lcsLen (drop r a) (drop c b)"
    if "r \<le> length a" "c \<le> length b" "i < r \<or> (r = i \<and> j + 1 \<le> c)" for r c
    using f that unfolding filled_def by blast
  have "lcsCell a b i j dp ! r ! c = lcsLen (drop r a) (drop c b)"
    if rc: "r \<le> length a" "c \<le> length b" and pos: "i < r \<or> (r = i \<and> j \<le> c)" for r c
  proof (cases "r = i \<and> c = j")
    case True
    then show ?thesis using cell [OF rc] v by simp
  next
    case False
    with pos have "i < r \<or> (r = i \<and> j + 1 \<le> c)" by auto
    then have "dp ! r ! c = lcsLen (drop r a) (drop c b)" by (rule old [OF rc])
    moreover have "lcsCell a b i j dp ! r ! c = dp ! r ! c"
      using cell [OF rc] False by simp
    ultimately show ?thesis by simp
  qed
  with shape show ?thesis unfolding filled_def by blast
qed

lemma filled_lcsInner:
  "i < length a \<Longrightarrow> k \<le> length b \<Longrightarrow> filled a b i k dp \<Longrightarrow>
     filled a b i 0 (lcsInner a b i k dp)"
proof (induction k arbitrary: dp)
  case 0
  then show ?case by simp
next
  case (Suc k)
  have "filled a b i k (lcsCell a b i k dp)"
    using Suc.prems by (intro filled_lcsCell) simp_all
  then show ?case using Suc.IH Suc.prems by simp
qed

lemma filled_next_row:
  assumes "filled a b (i + 1) 0 dp"
  shows "filled a b i (length b) dp"
proof -
  have sh: "tableShape (length a) (length b) dp" using assms unfolding filled_def by blast
  have "dp ! r ! c = lcsLen (drop r a) (drop c b)"
    if rc: "r \<le> length a" "c \<le> length b" and pos: "i < r \<or> (r = i \<and> length b \<le> c)" for r c
  proof (cases "i < r")
    case True
    then have "i + 1 < r \<or> (r = i + 1 \<and> 0 \<le> c)" by auto
    with assms rc show ?thesis unfolding filled_def by blast
  next
    case False
    with pos rc have "c = length b" by auto
    then show ?thesis using sh rc unfolding tableShape_def by simp
  qed
  with sh show ?thesis unfolding filled_def by blast
qed

lemma filled_lcsOuter:
  "k \<le> length a \<Longrightarrow> filled a b k 0 dp \<Longrightarrow> filled a b 0 0 (lcsOuter a b k dp)"
proof (induction k arbitrary: dp)
  case 0
  then show ?case by simp
next
  case (Suc k)
  have "filled a b k (length b) dp"
    using Suc.prems(2) by (intro filled_next_row) simp
  then have "filled a b k 0 (lcsInner a b k (length b) dp)"
    using Suc.prems(1) by (intro filled_lcsInner) simp_all
  then show ?case using Suc.IH Suc.prems(1) by simp
qed

lemma replicate_nth_le: "r \<le> m \<Longrightarrow> replicate (m + 1) x ! r = x"
  by (metis nth_replicate less_Suc_eq_le Suc_eq_plus1)

lemma filled_initial:
  "filled a b (length a) 0 (replicate (length a + 1) (replicate (length b + 1) 0))"
proof -
  let ?dp = "replicate (length a + 1) (replicate (length b + 1) (0::nat))"
  have row: "?dp ! r = replicate (length b + 1) 0" if "r \<le> length a" for r
    using that by (rule replicate_nth_le)
  have cell: "?dp ! r ! c = 0" if "r \<le> length a" "c \<le> length b" for r c
    using that by (simp only: row replicate_nth_le)
  have "tableShape (length a) (length b) ?dp"
    unfolding tableShape_def
    by (intro conjI allI impI) (simp_all only: row replicate_nth_le length_replicate order_refl)
  moreover have "?dp ! r ! c = lcsLen (drop r a) (drop c b)"
    if "r \<le> length a" "c \<le> length b" "length a < r \<or> (r = length a \<and> 0 \<le> c)" for r c
  proof -
    from that have "r = length a" by auto
    then have "lcsLen (drop r a) (drop c b) = 0" by simp
    with that(1,2) show ?thesis by (simp only: cell)
  qed
  ultimately show ?thesis unfolding filled_def by blast
qed

lemma lcsTable_correct:
  assumes "i \<le> length a" "j \<le> length b"
  shows "lcsTable a b ! i ! j = lcsLen (drop i a) (drop j b)"
proof -
  have "filled a b 0 0 (lcsTable a b)"
    unfolding lcsTable_def by (intro filled_lcsOuter filled_initial) simp
  then show ?thesis using assms unfolding filled_def by (cases i) auto
qed

text \<open>
  Claim C6. At a position \<open>(i, j)\<close> of the walk where the two tokens differ and the LCS score
  after consuming from \<open>a\<close> equals the LCS score after consuming from \<open>b\<close>, the two table
  entries the walk compares are equal and the walk consumes \<open>a ! i\<close>, pushing it as removed,
  and goes on from \<open>(i + 1, j)\<close>. \<open>diffWords\<close> being a function of its two arguments, the
  segment list of a pair is the same in every computation.
\<close>

theorem tie_break_prefers_removed:
  assumes "i < length a" and "j < length b" and "a ! i \<noteq> b ! j"
    and "lcsLen (drop (i + 1) a) (drop j b) = lcsLen (drop i a) (drop (j + 1) b)"
  shows "lcsTable a b ! (i + 1) ! j = lcsTable a b ! i ! (j + 1)
       \<and> walk a b (lcsTable a b) i j segs
           = walk a b (lcsTable a b) (i + 1) j (push segs Removed (a ! i))"
proof -
  have "lcsTable a b ! (i + 1) ! j = lcsLen (drop (i + 1) a) (drop j b)"
    using assms(1,2) by (intro lcsTable_correct) simp_all
  moreover have "lcsTable a b ! i ! (j + 1) = lcsLen (drop i a) (drop (j + 1) b)"
    using assms(1,2) by (intro lcsTable_correct) simp_all
  ultimately have tie: "lcsTable a b ! (i + 1) ! j = lcsTable a b ! i ! (j + 1)"
    using assms(4) by simp
  then have "lcsTable a b ! (i + 1) ! j \<ge> lcsTable a b ! i ! (j + 1)" by simp
  with assms(1-3) have "walk a b (lcsTable a b) i j segs
           = walk a b (lcsTable a b) (i + 1) j (push segs Removed (a ! i))"
    by (rule walk_removed)
  with tie show ?thesis by simp
qed

lemma tokens_ab_ba:
  "tokenize (js ''a b'') = [js ''a'', js '' '', js ''b'']"
  "tokenize (js ''b a'') = [js ''b'', js '' '', js ''a'']"
  by code_simp+

lemma diffWords_ab_ba:
  "diffWords (js ''a b'') (js ''b a'')
     = [DiffSegment (js ''a '') Removed, DiffSegment (js ''b'') Equal, DiffSegment (js '' a'') Added]"
  by code_simp

theorem tie_break_prefers_removed_witness:
  "(0::nat) < length (tokenize (js ''a b'')) \<and> (0::nat) < length (tokenize (js ''b a''))
   \<and> tokenize (js ''a b'') ! 0 \<noteq> tokenize (js ''b a'') ! 0
   \<and> lcsLen (drop (0 + 1) (tokenize (js ''a b''))) (drop 0 (tokenize (js ''b a'')))
       = lcsLen (drop 0 (tokenize (js ''a b''))) (drop (0 + 1) (tokenize (js ''b a'')))
   \<and> walk (tokenize (js ''a b'')) (tokenize (js ''b a''))
        (lcsTable (tokenize (js ''a b'')) (tokenize (js ''b a''))) 0 0 []
      = walk (tokenize (js ''a b'')) (tokenize (js ''b a''))
        (lcsTable (tokenize (js ''a b'')) (tokenize (js ''b a''))) (0 + 1) 0
        (push [] Removed (tokenize (js ''a b'') ! 0))
   \<and> diffWords (js ''a b'') (js ''b a'')
     = [DiffSegment (js ''a '') Removed, DiffSegment (js ''b'') Equal, DiffSegment (js '' a'') Added]"
proof -
  have h: "(0::nat) < length (tokenize (js ''a b''))" "(0::nat) < length (tokenize (js ''b a''))"
    "tokenize (js ''a b'') ! 0 \<noteq> tokenize (js ''b a'') ! 0"
    "lcsLen (drop (0 + 1) (tokenize (js ''a b''))) (drop 0 (tokenize (js ''b a'')))
       = lcsLen (drop 0 (tokenize (js ''a b''))) (drop (0 + 1) (tokenize (js ''b a'')))"
    by (simp_all add: tokens_ab_ba) (simp_all add: js_def)
  show ?thesis
    using tie_break_prefers_removed [OF h, of "[]"] h diffWords_ab_ba by simp
qed

subsection \<open>Trailing whitespace\<close>

lemma addCore_eq: "addCore s = rev (dropWhile is_space (rev s))"
proof -
  have "rev s = takeWhile is_space (rev s) @ dropWhile is_space (rev s)" by simp
  then have s: "s = rev (dropWhile is_space (rev s)) @ rev (takeWhile is_space (rev s))"
    by (metis rev_append rev_rev_ident)
  have "length (takeWhile is_space (rev s)) + length (dropWhile is_space (rev s)) = length s"
    by (metis length_append length_rev takeWhile_dropWhile_id)
  then have "length s - length (trailingSpace s) = length (rev (dropWhile is_space (rev s)))"
    unfolding trailingSpace_def by simp
  then have "addCore s = take (length (rev (dropWhile is_space (rev s))))
      (rev (dropWhile is_space (rev s)) @ rev (takeWhile is_space (rev s)))"
    unfolding addCore_def using s by simp
  then show ?thesis by simp
qed

lemma addCore_trailingSpace: "addCore s @ trailingSpace s = s"
  unfolding addCore_eq trailingSpace_def
  by (metis rev_append rev_rev_ident takeWhile_dropWhile_id)

lemma trailingSpace_all_space: "list_all is_space (trailingSpace s)"
  unfolding trailingSpace_def list_all_iff by (auto dest: set_takeWhileD)

lemma addCore_last: "addCore s \<noteq> [] \<Longrightarrow> \<not> is_space (last (addCore s))"
proof -
  assume "addCore s \<noteq> []"
  then have ne: "dropWhile is_space (rev s) \<noteq> []" by (simp add: addCore_eq)
  then have "\<not> is_space (hd (dropWhile is_space (rev s)))" by (rule hd_dropWhile)
  with ne show ?thesis by (simp add: addCore_eq last_rev)
qed

text \<open>
  Claim C4, as the code has it. The \<open>after\<close> text of a change-op splits into \<open>addCore\<close> and
  its maximal trailing whitespace. An accepted op renders \<open>addCore\<close> followed by the trailing
  whitespace as plain text; an undecided op renders the struck \<open>before\<close>, \<open>addCore\<close> as the
  marked fragment, the trailing whitespace as plain text and the buttons; a declined op
  renders \<open>before\<close> only. The merged text takes no split: it has the whole \<open>after\<close> for an
  accepted op and \<open>before\<close> for any other.
\<close>

theorem trailing_space_split:
  "addCore af @ trailingSpace af = af \<and> list_all is_space (trailingSpace af)
   \<and> (addCore af \<noteq> [] \<longrightarrow> \<not> is_space (last (addCore af)))
   \<and> (map_of decisions idx = Some Accept \<longrightarrow>
        renderOp decisions idx (ChangeOp bf af)
          = Padded (addCore af) # (if trailingSpace af \<noteq> [] then [Plain (trailingSpace af)] else []))
   \<and> (map_of decisions idx = Some Decline \<longrightarrow>
        renderOp decisions idx (ChangeOp bf af) = [Padded bf])
   \<and> (map_of decisions idx \<noteq> Some Accept \<and> map_of decisions idx \<noteq> Some Decline \<longrightarrow>
        renderOp decisions idx (ChangeOp bf af)
          = (if bf \<noteq> [] then [Struck bf (clipMiddle bf)] else [])
            @ (if addCore af \<noteq> [] then [Marked (addCore af)] else [])
            @ (if trailingSpace af \<noteq> [] then [Plain (trailingSpace af)] else [])
            @ [Buttons idx])
   \<and> mergedPiece (ChangeOp bf af) (map_of decisions idx)
        = (if map_of decisions idx = Some Accept then af else bf)"
  using addCore_trailingSpace [of af] trailingSpace_all_space [of af] addCore_last [of af]
  by (simp add: renderOp_def mergedPiece_def Let_def)

lemma groupOps_x_y: "groupOps (js ''x'') (js ''y '') = [ChangeOp (js ''x'') (js ''y '')]"
  by code_simp

lemma trailing_y: "trailingSpace (js ''y '') = js '' ''" "addCore (js ''y '') = js ''y''"
  by code_simp+

theorem trailing_space_split_witness:
  "renderOp [(0, Accept)] 0 (ChangeOp (js ''x'') (js ''y '')) = [Padded (js ''y''), Plain (js '' '')]
   \<and> renderOp [(0, Decline)] 0 (ChangeOp (js ''x'') (js ''y '')) = [Padded (js ''x'')]
   \<and> renderOp [(0, Pending)] 0 (ChangeOp (js ''x'') (js ''y ''))
       = [Struck (js ''x'') (js ''x''), Marked (js ''y''), Plain (js '' ''), Buttons 0]
   \<and> \<not> is_space (last (js ''y''))"
  using trailing_space_split [of "js ''y ''" "[(0, Accept)]" 0 "js ''x''"]
    trailing_space_split [of "js ''y ''" "[(0, Decline)]" 0 "js ''x''"]
    trailing_space_split [of "js ''y ''" "[(0, Pending)]" 0 "js ''x''"]
  by (simp add: trailing_y) (simp add: js_def clipMiddle_def)

text \<open>
  The claim as stated has the trailing whitespace in the rendered and in the merged result
  whatever the decision is; for a declined or pending op the merged text is \<open>before\<close>, and a
  declined op shows \<open>before\<close> alone.
\<close>

theorem trailing_space_dropped_on_decline_counterexample:
  "trailingSpace (js ''y '') = js '' ''
   \<and> fst (commit (groupOps (js ''x'') (js ''y '')) [(0, Decline)]) = js ''x''
   \<and> fst (commit (groupOps (js ''x'') (js ''y '')) [(0, Pending)]) = js ''x''
   \<and> concat (map nodeText (concat (renderOps (groupOps (js ''x'') (js ''y '')) [(0, Decline)])))
       = js ''x''"
  by code_simp

subsection \<open>Decisions\<close>

lemma snd_update_subset:
  "set (map snd (AList.update k v al)) \<subseteq> insert v (set (map snd al))"
  by (induction al) auto

lemma allResolved_setDecision:
  assumes "decision \<noteq> Pending" "snd (commit ops prev)"
  shows "snd (commit ops (setDecision prev idx decision))"
proof -
  have "\<forall>v \<in> set (map snd prev). v \<noteq> Pending"
    using assms(2) by (simp add: commit_def list_all_iff)
  with assms(1) snd_update_subset [of idx decision prev]
  have "\<forall>v \<in> set (map snd (AList.update idx decision prev)). v \<noteq> Pending"
    by blast
  then show ?thesis by (simp add: commit_def setDecision_def list_all_iff)
qed

lemma map_of_setDecision:
  "map_of (setDecision prev idx decision) = (map_of prev)(idx \<mapsto> decision)"
  by (simp add: setDecision_def update_conv')

lemma decided_setDecision:
  assumes "decision \<noteq> Pending"
    and "map_of prev k = Some Accept \<or> map_of prev k = Some Decline"
  shows "map_of (setDecision prev idx decision) k = Some Accept
       \<or> map_of (setDecision prev idx decision) k = Some Decline"
  using assms by (cases decision) (auto simp: map_of_setDecision)

lemma clickDecision_Some:
  assumes "clickDecision r idx decision = Some (r', out)"
  shows "r_ops r' = r_ops r" "r_key r' = r_key r" "idx < length (r_ops r)" "is_ChangeOp (r_ops r ! idx)"
    "decision = Accept \<or> decision = Decline"
    "r_decisions r' = setDecision (r_decisions r) idx decision"
    "out = commit (r_ops r) (r_decisions r')"
    "map_of (r_decisions r) idx \<noteq> Some Accept" "map_of (r_decisions r) idx \<noteq> Some Decline"
  using assms
  by (cases decision; auto simp: clickDecision_def hasButtons_def Let_def split: if_splits)+

lemma allResolved_fold:
  assumes "\<forall>m \<in> set ms. snd m = Accept \<or> snd m = Decline" and "snd (commit ops prev)"
  shows "snd (commit ops (fold (\<lambda>m p. setDecision p (fst m) (snd m)) ms prev))"
  using assms
proof (induction ms arbitrary: prev)
  case Nil
  then show ?case by simp
next
  case (Cons m ms)
  from Cons.prems(1) have "snd m \<noteq> Pending" by auto
  then have "snd (commit ops (setDecision prev (fst m) (snd m)))"
    using Cons.prems(2) by (rule allResolved_setDecision)
  with Cons.IH Cons.prems(1) show ?case by simp
qed

text \<open>
  Claim C10. The decisions of a mounted resolver change only by a click on the accept or
  decline button of a change-op, which leaves the operation list as it is and sets the
  decision of that one op by \<open>setDecision\<close>. A \<open>setDecision\<close> to accept or decline changes the
  entry of its index only and leaves every decided entry decided, so no decision goes back to
  pending. Hence, when the \<open>allResolved\<close> flag of \<open>commit\<close> is true for a decision store, it
  is true after one such mutation and after any sequence of them on the same operation list.
\<close>

theorem decisions_only_resolve:
  "(clickDecision r idx decision = Some (r', out) \<longrightarrow>
      r_ops r' = r_ops r \<and> is_ChangeOp (r_ops r ! idx)
      \<and> (decision = Accept \<or> decision = Decline)
      \<and> r_decisions r' = setDecision (r_decisions r) idx decision)
   \<and> (decision = Accept \<or> decision = Decline \<longrightarrow>
        map_of (setDecision prev idx decision) = (map_of prev)(idx \<mapsto> decision)
        \<and> (\<forall>k. map_of prev k = Some Accept \<or> map_of prev k = Some Decline \<longrightarrow>
               map_of (setDecision prev idx decision) k = Some Accept
               \<or> map_of (setDecision prev idx decision) k = Some Decline)
        \<and> (snd (commit ops prev) \<longrightarrow> snd (commit ops (setDecision prev idx decision))))
   \<and> ((\<forall>m \<in> set ms. snd m = Accept \<or> snd m = Decline) \<and> snd (commit ops prev) \<longrightarrow>
        snd (commit ops (fold (\<lambda>m p. setDecision p (fst m) (snd m)) ms prev)))"
proof (intro conjI impI)
  assume c: "clickDecision r idx decision = Some (r', out)"
  show "r_ops r' = r_ops r" by (rule clickDecision_Some(1) [OF c])
  show "is_ChangeOp (r_ops r ! idx)" by (rule clickDecision_Some(4) [OF c])
  show "decision = Accept \<or> decision = Decline" by (rule clickDecision_Some(5) [OF c])
  show "r_decisions r' = setDecision (r_decisions r) idx decision"
    by (rule clickDecision_Some(6) [OF c])
next
  show "map_of (setDecision prev idx decision) = (map_of prev)(idx \<mapsto> decision)"
    by (rule map_of_setDecision)
next
  assume "decision = Accept \<or> decision = Decline"
  then have np: "decision \<noteq> Pending" by auto
  show "\<forall>k. map_of prev k = Some Accept \<or> map_of prev k = Some Decline \<longrightarrow>
               map_of (setDecision prev idx decision) k = Some Accept
               \<or> map_of (setDecision prev idx decision) k = Some Decline"
    using decided_setDecision [OF np] by blast
next
  assume "decision = Accept \<or> decision = Decline" and "snd (commit ops prev)"
  then show "snd (commit ops (setDecision prev idx decision))"
    by (intro allResolved_setDecision) auto
next
  assume "(\<forall>m \<in> set ms. snd m = Accept \<or> snd m = Decline) \<and> snd (commit ops prev)"
  then show "snd (commit ops (fold (\<lambda>m p. setDecision p (fst m) (snd m)) ms prev))"
    using allResolved_fold by blast
qed

lemma render_frame [simp]:
  "recipient (render s) = recipient s" "subject (render s) = subject s" "body (render s) = body s"
  "pendingChanges (render s) = pendingChanges s" "status (render s) = status s"
  by (auto simp: render_def renderField_def split: option.splits)

lemma current_render [simp]: "current f (render s) = current f s"
  by (cases f) simp_all

text \<open>
  Claim C9. While a proposal is stored, a click on Accept All sets the current value of every
  tracked field to its proposed value and every status to applied; a click on Decline All
  leaves every current value as it is and sets every status to dismissed; both leave no
  proposal stored.
\<close>

theorem bulk_operations:
  assumes "pendingChanges s = Some pc"
  shows "(\<forall>f. current f (step s AcceptAll) = proposed f pc
            \<and> fieldStatus f (status (step s AcceptAll)) = StApplied)
       \<and> pendingChanges (step s AcceptAll) = None
       \<and> (\<forall>f. current f (step s DeclineAll) = current f s
            \<and> fieldStatus f (status (step s DeclineAll)) = StDismissed)
       \<and> pendingChanges (step s DeclineAll) = None"
proof -
  have "current f (acceptAll s) = proposed f pc \<and> fieldStatus f (status (acceptAll s)) = StApplied
      \<and> current f (declineAll s) = current f s \<and> fieldStatus f (status (declineAll s)) = StDismissed" for f
    using assms by (cases f) (simp_all add: acceptAll_def declineAll_def)
  moreover have "pendingChanges (acceptAll s) = None" "pendingChanges (declineAll s) = None"
    using assms by (simp_all add: acceptAll_def declineAll_def)
  ultimately show ?thesis by (simp add: step_def)
qed

lemma fieldStatus_set [simp]:
  "fieldStatus f (setFieldStatus g v st) = (if f = g then v else fieldStatus f st)"
  by (cases f; cases g) simp_all

lemma current_setCurrent [simp]:
  "current f (setCurrent g v s) = (if f = g then v else current f s)"
  by (cases f; cases g) simp_all

lemma setCurrent_frame [simp]:
  "pendingChanges (setCurrent g v s) = pendingChanges s" "status (setCurrent g v s) = status s"
  "resolver f (setCurrent g v s) = resolver f s"
  by (cases g; cases f; simp)+

lemma setResolver_frame [simp]:
  "pendingChanges (setResolver g r s) = pendingChanges s" "status (setResolver g r s) = status s"
  "current f (setResolver g r s) = current f s"
  "resolver f (setResolver g r s) = (if f = g then r else resolver f s)"
  by (cases g; cases f; simp)+

lemma update_frame [simp]:
  "current f (s\<lparr>status := x\<rparr>) = current f s" "resolver f (s\<lparr>status := x\<rparr>) = resolver f s"
  "current f (s\<lparr>pendingChanges := y\<rparr>) = current f s"
  "resolver f (s\<lparr>pendingChanges := y\<rparr>) = resolver f s"
  by (cases f; simp)+

lemma resolveIfDone_frame [simp]:
  "current f (resolveIfDone st s) = current f s" "status (resolveIfDone st s) = status s"
  "resolver f (resolveIfDone st s) = resolver f s"
  by (cases f; simp add: resolveIfDone_def)+

lemma onChange_effect:
  "current g (onChange f pc merged allResolved s) = (if g = f then merged else current g s)"
  "status (onChange f pc merged allResolved s) =
     setFieldStatus f (if allResolved then (if merged = proposed f pc then StApplied else StDismissed)
                       else StPending) (status s)"
  "resolver g (onChange f pc merged allResolved s) = resolver g s"
  by (simp_all add: onChange_def Let_def)

text \<open>
  Claim C8. When a decision is made in the resolver of a field, with \<open>merged\<close> and
  \<open>allResolved\<close> the two values that \<open>commit\<close> reports for the new decisions: the current
  value of the field becomes \<open>merged\<close>, whether all changes are resolved or not; and the status
  of the field becomes applied if \<open>allResolved\<close> holds and \<open>merged\<close> is the proposed value,
  dismissed if \<open>allResolved\<close> holds and it is not, and stays pending otherwise.
\<close>

theorem field_resolution:
  assumes "pendingChanges s = Some pc" and "resolver f s = Some r"
    and "clickDecision r idx decision = Some (r', merged, allResolved)"
  shows "(merged, allResolved) = commit (r_ops r) (setDecision (r_decisions r) idx decision)
       \<and> current f (step s (Decide f idx decision)) = merged
       \<and> fieldStatus f (status (step s (Decide f idx decision)))
           = (if allResolved then (if merged = proposed f pc then StApplied else StDismissed)
              else StPending)"
proof -
  have "handle (Decide f idx decision) s
      = onChange f pc merged allResolved (setResolver f (Some r') s)"
    using assms by (simp add: decide_def)
  then show ?thesis
    using clickDecision_Some(6,7) [OF assms(3)] by (simp add: step_def onChange_effect)
qed

subsection \<open>The controller\<close>

lemma exampleContact_eq:
  "exampleContact =
    \<lparr>recipient = [], subject = [], body = js ''a b'',
     pendingChanges = Some exampleProposal,
     status = \<lparr>st_email = StPending, st_subject = StPending, st_text = StPending\<rparr>,
     emailResolver = Some \<lparr>r_key = js ''email-|a@x.com'',
        r_ops = [ChangeOp [] (js ''a@x.com'')], r_decisions = [(0, Pending)]\<rparr>,
     subjectResolver = Some \<lparr>r_key = js ''subject-|Hi'',
        r_ops = [ChangeOp [] (js ''Hi'')], r_decisions = [(0, Pending)]\<rparr>,
     textResolver = Some \<lparr>r_key = js ''text-a b|c d'',
        r_ops = [ChangeOp (js ''a'') (js ''c''), EqualOp (js '' ''), ChangeOp (js ''b'') (js ''d'')],
        r_decisions = [(0, Pending), (2, Pending)]\<rparr>\<rparr>"
  by code_simp

theorem bulk_operations_witness:
  "pendingChanges exampleContact = Some exampleProposal
   \<and> current EmailField exampleContact = []
   \<and> fieldStatus EmailField (status exampleContact) = StPending
   \<and> current EmailField (step exampleContact AcceptAll) = js ''a@x.com''
   \<and> fieldStatus EmailField (status (step exampleContact AcceptAll)) = StApplied
   \<and> pendingChanges (step exampleContact AcceptAll) = None
   \<and> current EmailField (step exampleContact DeclineAll) = []
   \<and> fieldStatus EmailField (status (step exampleContact DeclineAll)) = StDismissed
   \<and> pendingChanges (step exampleContact DeclineAll) = None"
proof -
  have pc: "pendingChanges exampleContact = Some exampleProposal"
    by (simp add: exampleContact_eq)
  show ?thesis
    using bulk_operations [OF pc] pc
    by (simp add: exampleContact_eq exampleProposal_def)
qed

lemma example_click:
  "clickDecision
     \<lparr>r_key = js ''text-a b|c d'',
      r_ops = [ChangeOp (js ''a'') (js ''c''), EqualOp (js '' ''), ChangeOp (js ''b'') (js ''d'')],
      r_decisions = [(0, Pending), (2, Pending)]\<rparr> 0 Accept
   = Some (\<lparr>r_key = js ''text-a b|c d'',
      r_ops = [ChangeOp (js ''a'') (js ''c''), EqualOp (js '' ''), ChangeOp (js ''b'') (js ''d'')],
      r_decisions = [(0, Accept), (2, Pending)]\<rparr>, js ''c b'', False)"
  by code_simp

lemma example_click2:
  "clickDecision
     \<lparr>r_key = js ''email-|a@x.com'',
        r_ops = [ChangeOp [] (js ''a@x.com'')], r_decisions = [(0, Pending)]\<rparr> 0 Decline
   = Some (\<lparr>r_key = js ''email-|a@x.com'',
        r_ops = [ChangeOp [] (js ''a@x.com'')], r_decisions = [(0, Decline)]\<rparr>, [], True)"
  by code_simp

theorem field_resolution_witness:
  "pendingChanges exampleContact = Some exampleProposal
   \<and> resolver TextField exampleContact = Some \<lparr>r_key = js ''text-a b|c d'',
      r_ops = [ChangeOp (js ''a'') (js ''c''), EqualOp (js '' ''), ChangeOp (js ''b'') (js ''d'')],
      r_decisions = [(0, Pending), (2, Pending)]\<rparr>
   \<and> clickDecision
     \<lparr>r_key = js ''text-a b|c d'',
      r_ops = [ChangeOp (js ''a'') (js ''c''), EqualOp (js '' ''), ChangeOp (js ''b'') (js ''d'')],
      r_decisions = [(0, Pending), (2, Pending)]\<rparr> 0 Accept
     = Some (\<lparr>r_key = js ''text-a b|c d'',
      r_ops = [ChangeOp (js ''a'') (js ''c''), EqualOp (js '' ''), ChangeOp (js ''b'') (js ''d'')],
      r_decisions = [(0, Accept), (2, Pending)]\<rparr>, js ''c b'', False)
   \<and> current TextField (step exampleContact (Decide TextField 0 Accept)) = js ''c b''
   \<and> fieldStatus TextField (status (step exampleContact (Decide TextField 0 Accept))) = StPending
   \<and> current EmailField (step exampleContact (Decide EmailField 0 Decline)) = []
   \<and> fieldStatus EmailField (status (step exampleContact (Decide EmailField 0 Decline))) = StDismissed"
proof -
  have pc: "pendingChanges exampleContact = Some exampleProposal"
    by (simp add: exampleContact_eq)
  have rt: "resolver TextField exampleContact = Some \<lparr>r_key = js ''text-a b|c d'',
      r_ops = [ChangeOp (js ''a'') (js ''c''), EqualOp (js '' ''), ChangeOp (js ''b'') (js ''d'')],
      r_decisions = [(0, Pending), (2, Pending)]\<rparr>"
    by (simp add: exampleContact_eq)
  have re: "resolver EmailField exampleContact = Some \<lparr>r_key = js ''email-|a@x.com'',
        r_ops = [ChangeOp [] (js ''a@x.com'')], r_decisions = [(0, Pending)]\<rparr>"
    by (simp add: exampleContact_eq)
  show ?thesis
    using field_resolution [OF pc rt example_click] field_resolution [OF pc re example_click2]
      pc rt example_click
    by (simp add: exampleProposal_def js_def)
qed

lemma example_commits:
  "snd (commit [ChangeOp (js ''a'') (js ''c''), EqualOp (js '' ''), ChangeOp (js ''b'') (js ''d'')]
     [(0, Accept), (2, Decline)])"
  "snd (commit [ChangeOp (js ''a'') (js ''c''), EqualOp (js '' ''), ChangeOp (js ''b'') (js ''d'')]
     (setDecision [(0, Accept), (2, Decline)] 0 Decline))"
  by (simp_all add: commit_def setDecision_def)

theorem decisions_only_resolve_witness:
  "clickDecision
     \<lparr>r_key = js ''email-|a@x.com'',
        r_ops = [ChangeOp [] (js ''a@x.com'')], r_decisions = [(0, Pending)]\<rparr> 0 Decline
   = Some (\<lparr>r_key = js ''email-|a@x.com'',
        r_ops = [ChangeOp [] (js ''a@x.com'')], r_decisions = [(0, Decline)]\<rparr>, [], True)
   \<and> [(0, Decline)] = setDecision [(0, Pending)] 0 Decline
   \<and> list_all (\<lambda>m. snd m = Accept \<or> snd m = Decline) [(0 :: nat, Decline), (2, Accept)]
   \<and> snd (commit [ChangeOp (js ''a'') (js ''c''), EqualOp (js '' ''), ChangeOp (js ''b'') (js ''d'')]
        [(0, Accept), (2, Decline)])
   \<and> snd (commit [ChangeOp (js ''a'') (js ''c''), EqualOp (js '' ''), ChangeOp (js ''b'') (js ''d'')]
        (setDecision [(0, Accept), (2, Decline)] 0 Decline))
   \<and> snd (commit [ChangeOp (js ''a'') (js ''c''), EqualOp (js '' ''), ChangeOp (js ''b'') (js ''d'')]
        (fold (\<lambda>m p. setDecision p (fst m) (snd m)) [(0, Decline), (2, Accept)]
           [(0, Accept), (2, Decline)]))"
  using decisions_only_resolve [of
      "\<lparr>r_key = js ''email-|a@x.com'', r_ops = [ChangeOp [] (js ''a@x.com'')],
        r_decisions = [(0, Pending)]\<rparr>" 0 Decline
      "\<lparr>r_key = js ''email-|a@x.com'', r_ops = [ChangeOp [] (js ''a@x.com'')],
        r_decisions = [(0, Decline)]\<rparr>" "([], True)"
      "[(0, Accept), (2, Decline)]"
      "[ChangeOp (js ''a'') (js ''c''), EqualOp (js '' ''), ChangeOp (js ''b'') (js ''d'')]"
      "[(0, Decline), (2, Accept)]"]
    example_click2 example_commits
  by (simp add: setDecision_def)

text \<open>
  Claim C3 asks that a proposal is stored exactly while some field is pending. The effect on
  an incoming proposal stores it without the check that \<open>resolveIfDone\<close> makes on the other
  path: when a proposal is accepted as a whole and the same values arrive again, every field
  is unchanged and the proposal stays stored.
\<close>

theorem proposal_kept_with_no_field_pending:
  "pendingChanges (run [Incoming exampleProposal, AcceptAll, Incoming exampleProposal])
     = Some exampleProposal
   \<and> \<not> anyPending (status (run [Incoming exampleProposal, AcceptAll, Incoming exampleProposal]))"
  by code_simp

text \<open>
  The other half of the claim holds in every reachable state: while no proposal is stored, no
  field is pending.
\<close>

lemma anyPending_iff: "anyPending st \<longleftrightarrow> (\<exists>f. fieldStatus f st = StPending)"
proof
  assume "anyPending st"
  then consider "fieldStatus EmailField st = StPending" | "fieldStatus SubjectField st = StPending"
    | "fieldStatus TextField st = StPending"
    by (auto simp: anyPending_def)
  then show "\<exists>f. fieldStatus f st = StPending" by cases blast+
next
  assume "\<exists>f. fieldStatus f st = StPending"
  then obtain f where "fieldStatus f st = StPending" ..
  then show "anyPending st" by (cases f) (simp_all add: anyPending_def)
qed

lemma proposalInv_handle: "proposalInv s \<Longrightarrow> proposalInv (handle e s)"
proof (cases e)
  case (Incoming d)
  then show ?thesis by (simp add: proposalInv_def onIncoming_def)
next
  case AcceptAll
  assume "proposalInv s"
  with AcceptAll show ?thesis
    by (auto simp: proposalInv_def acceptAll_def anyPending_def split: option.splits)
next
  case DeclineAll
  assume "proposalInv s"
  with DeclineAll show ?thesis
    by (auto simp: proposalInv_def declineAll_def anyPending_def split: option.splits)
next
  case (Decide f idx decision)
  assume inv: "proposalInv s"
  show ?thesis
  proof (cases "\<exists>pc r r' merged allResolved. pendingChanges s = Some pc \<and> resolver f s = Some r
      \<and> clickDecision r idx decision = Some (r', merged, allResolved)")
    case False
    then have "handle e s = s"
      using Decide by (auto simp: decide_def split: option.splits prod.splits)
    with inv show ?thesis by simp
  next
    case True
    then obtain pc r r' merged allResolved where h: "pendingChanges s = Some pc"
      "resolver f s = Some r" "clickDecision r idx decision = Some (r', merged, allResolved)"
      by blast
    then have eq: "handle e s = onChange f pc merged allResolved (setResolver f (Some r') s)"
      using Decide by (simp add: decide_def)
    show ?thesis
      unfolding eq using h(1)
      by (auto simp: proposalInv_def onChange_def Let_def resolveIfDone_def anyPending_iff)
  qed
next
  case (Input f v)
  assume "proposalInv s"
  with Input show ?thesis by (simp add: proposalInv_def)
qed

lemma proposalInv_run: "proposalInv (run es)"
proof (induction es rule: rev_induct)
  case Nil
  show ?case by (simp add: run_def proposalInv_def initialContact_def anyPending_def)
next
  case (snoc e es)
  then have "proposalInv (handle e (run es))" by (rule proposalInv_handle)
  then show ?case by (simp add: run_def step_def proposalInv_def)
qed

subsection \<open>Regeneration\<close>

lemma renderField_frame [simp]:
  "recipient (renderField g t) = recipient t" "subject (renderField g t) = subject t"
  "body (renderField g t) = body t" "pendingChanges (renderField g t) = pendingChanges t"
  "status (renderField g t) = status t" "current f (renderField g t) = current f t"
  by (cases g; cases f; simp add: renderField_def split: option.splits)+

lemma resolver_renderField:
  "resolver f (renderField g t) = (if f = g then slot g t else resolver f t)"
  by (simp add: renderField_def slot_def split: option.splits)

lemma slot_renderField: "f \<noteq> g \<Longrightarrow> slot f (renderField g t) = slot f t"
  by (auto simp: slot_def resolver_renderField split: option.splits)

lemma resolver_render: "resolver f (render t) = slot f t"
  by (cases f) (simp_all add: render_def resolver_renderField slot_renderField)

lemma resolverKey_inj:
  "resolverKey f b a = resolverKey f b a' \<longleftrightarrow> a = a'"
  "resolverKey f b a = resolverKey f b' a \<longleftrightarrow> b = b'"
  by (simp_all add: resolverKey_def)

text \<open>
  The key of a resolver determines its pair when one of the two texts is known; by itself it
  does not, since the separator may occur in the texts. Each step of the component changes
  at most one of the two texts of a field whose resolver stays shown, which is what the
  proof below uses.
\<close>

lemma resolverKey_collision:
  "resolverKey f (js ''q'') (js ''q|q'') = resolverKey f (js ''q|q'') (js ''q'')"
  by (simp add: resolverKey_def js_def)

lemma keys_initDecisions: "map fst (initDecisions ops) = changeIdxs ops"
  by (simp add: initDecisions_def comp_def)

lemma inSync_mount: "inSync (mountResolver k b a) b a"
  by (simp add: inSync_def mountResolver_def keys_initDecisions)

lemma keys_setDecision:
  "idx \<in> set (map fst prev) \<Longrightarrow> map fst (setDecision prev idx d) = map fst prev"
  by (simp add: setDecision_def update_keys)

lemma rendered_Some:
  assumes "rendered s" "resolver f s = Some r"
  shows "mounted f s r"
  using assms unfolding rendered_def by (metis option.simps(5))

lemma rendered_None:
  assumes "rendered s" "\<not> showsResolver f s"
  shows "resolver f s = None"
proof (cases "resolver f s")
  case None
  then show ?thesis .
next
  case (Some r)
  with assms(1) have "mounted f s r" by (rule rendered_Some)
  with assms(2) show ?thesis by (auto simp: mounted_def showsResolver_def)
qed

lemma carried_same:
  assumes "rendered s" "resolver f t = resolver f s"
    and "\<And>b0 a0 b1 a1. pairOf f s = Some (b0, a0) \<Longrightarrow> pairOf f t = Some (b1, a1) \<Longrightarrow> b1 = b0 \<or> a1 = a0"
  shows "carried f s t"
proof (cases "resolver f s")
  case None
  with assms(2) show ?thesis by (simp add: carried_def)
next
  case (Some r)
  with assms(1) have "mounted f s r" by (rule rendered_Some)
  then obtain pc where pc: "pendingChanges s = Some pc"
    "r_key r = resolverKey f (current f s) (proposed f pc)"
    "inSync r (current f s) (proposed f pc)"
    unfolding mounted_def by blast
  then have p: "pairOf f s = Some (current f s, proposed f pc)" by (simp add: pairOf_def)
  show ?thesis
    unfolding carried_def using Some assms(2) pc(2,3) p assms(3) [OF p] by auto
qed

lemma render_post:
  assumes c: "carried f s t" and r': "resolver f (render t) = Some r'"
  shows "mounted f (render t) r'
       \<and> (pairOf f (render t) \<noteq> pairOf f s \<longrightarrow> r_decisions r' = initDecisions (r_ops r'))"
proof -
  from r' have sl: "slot f t = Some r'" by (simp add: resolver_render)
  then obtain pc where pc: "pendingChanges t = Some pc" "fieldStatus f (status t) = StPending"
    and rec: "r' = reconcile (resolver f t) (resolverKey f (current f t) (proposed f pc))
        (current f t) (proposed f pc)"
    by (auto simp: slot_def split: option.splits if_splits)
  let ?b = "current f t" and ?a = "proposed f pc"
  have pt: "pairOf f t = Some (?b, ?a)" "pairOf f (render t) = Some (?b, ?a)"
    using pc by (simp_all add: pairOf_def)
  have fresh: "mounted f (render t) (mountResolver (resolverKey f ?b ?a) ?b ?a)"
    using pc by (simp add: mounted_def inSync_mount) (simp add: mountResolver_def)
  have freshd: "r_decisions (mountResolver k ?b ?a) = initDecisions (r_ops (mountResolver k ?b ?a))" for k
    by (simp add: mountResolver_def)
  show ?thesis
  proof (cases "resolver f t")
    case None
    with rec have "r' = mountResolver (resolverKey f ?b ?a) ?b ?a" by (simp add: reconcile_def)
    with fresh freshd show ?thesis by simp
  next
    case (Some r)
    show ?thesis
    proof (cases "r_key r = resolverKey f ?b ?a")
      case False
      with rec Some have "r' = mountResolver (resolverKey f ?b ?a) ?b ?a"
        by (simp add: reconcile_def)
      with fresh freshd show ?thesis by simp
    next
      case True
      from c Some obtain b0 a0 where o: "pairOf f s = Some (b0, a0)"
        "r_key r = resolverKey f b0 a0" "inSync r b0 a0" "?b = b0 \<or> ?a = a0"
        unfolding carried_def using pt(1) by auto
      from True o(2) have k: "resolverKey f b0 a0 = resolverKey f ?b ?a" by simp
      with o(4) have same: "b0 = ?b \<and> a0 = ?a"
        by (auto simp: resolverKey_inj)
      from rec Some True have r'eq: "r' = rerenderResolver r ?b ?a" by (simp add: reconcile_def)
      have "inSync r' ?b ?a"
        using o(3) same unfolding r'eq inSync_def rerenderResolver_def by simp
      moreover have "r_key r' = resolverKey f ?b ?a"
        using True unfolding r'eq rerenderResolver_def by simp
      ultimately have "mounted f (render t) r'"
        using pc by (simp add: mounted_def)
      moreover have "pairOf f (render t) = pairOf f s"
        using o(1) same pt(2) by simp
      ultimately show ?thesis by simp
    qed
  qed
qed

lemma render_rendered:
  assumes "\<And>f. carried f s t"
  shows "rendered (render t)"
  unfolding rendered_def
proof
  fix f
  show "case resolver f (render t) of None \<Rightarrow> \<not> showsResolver f (render t)
        | Some r \<Rightarrow> mounted f (render t) r"
  proof (cases "resolver f (render t)")
    case None
    then have "slot f t = None" by (simp add: resolver_render)
    then have "\<not> showsResolver f (render t)"
      by (auto simp: slot_def showsResolver_def split: option.splits if_splits)
    with None show ?thesis by simp
  next
    case (Some r')
    with render_post [OF assms Some] show ?thesis by simp
  qed
qed

lemma pairOf_eq:
  "pairOf f s = Some (b, a) \<longleftrightarrow> (\<exists>pc. pendingChanges s = Some pc \<and> b = current f s \<and> a = proposed f pc)"
  by (auto simp: pairOf_def split: option.splits)

lemma onIncoming_frame [simp]:
  "current f (onIncoming d s) = current f s" "resolver f (onIncoming d s) = resolver f s"
  by (cases f; simp add: onIncoming_def split: option.splits)+

lemma acceptAll_frame [simp]:
  "resolver f (acceptAll s) = resolver f s" "resolver f (declineAll s) = resolver f s"
  by (cases f; simp add: acceptAll_def declineAll_def split: option.splits)+

lemma pendingChanges_bulk:
  "pendingChanges (acceptAll s) = None" "pendingChanges (declineAll s) = None"
  by (simp_all add: acceptAll_def declineAll_def split: option.splits)

lemma pendingChanges_onChange:
  "pendingChanges (onChange g pc merged allResolved s) = None
   \<or> pendingChanges (onChange g pc merged allResolved s) = pendingChanges s"
  by (simp add: onChange_def Let_def resolveIfDone_def)

lemma carried_decide:
  assumes rd: "rendered s"
  shows "carried f s (decide g idx decision s)"
proof (cases "\<exists>pc r r' merged allResolved. pendingChanges s = Some pc \<and> resolver g s = Some r
      \<and> clickDecision r idx decision = Some (r', merged, allResolved)")
  case False
  then have "decide g idx decision s = s"
    by (auto simp: decide_def split: option.splits prod.splits)
  then show ?thesis using rd by (auto intro!: carried_same)
next
  case True
  then obtain pc r r' merged allResolved where h: "pendingChanges s = Some pc"
    "resolver g s = Some r" "clickDecision r idx decision = Some (r', merged, allResolved)"
    by blast
  let ?t = "onChange g pc merged allResolved (setResolver g (Some r') s)"
  have eq: "decide g idx decision s = ?t"
    using h by (simp add: decide_def)
  have pend: "pendingChanges ?t = None \<or> pendingChanges ?t = Some pc"
    using pendingChanges_onChange [of g pc merged allResolved "setResolver g (Some r') s"] h(1)
    by simp
  have after_same: "a1 = a0" if "pairOf f s = Some (b0, a0)" "pairOf f ?t = Some (b1, a1)"
    for b0 a0 b1 a1
    using that pend h(1) by (auto simp: pairOf_eq)
  show ?thesis
  proof (cases "f = g")
    case False
    then have "resolver f ?t = resolver f s" by (simp add: onChange_effect)
    then show ?thesis unfolding eq using rd after_same by (auto intro!: carried_same)
  next
    case True
    have m: "mounted g s r" using rd h(2) by (rule rendered_Some)
    then have k: "r_key r = resolverKey g (current g s) (proposed g pc)"
      and sy: "inSync r (current g s) (proposed g pc)"
      using h(1) unfolding mounted_def by auto
    note c = clickDecision_Some [OF h(3)]
    have "idx \<in> set (changeIdxs (r_ops r))" using c(3,4) by (simp add: mem_changeIdxs)
    then have "idx \<in> set (map fst (r_decisions r))" using sy by (simp add: inSync_def)
    then have "map fst (r_decisions r') = map fst (r_decisions r)"
      using c(6) by (simp add: keys_setDecision)
    then have sy': "inSync r' (current g s) (proposed g pc)"
      using sy c(1) by (simp add: inSync_def)
    have res: "resolver f ?t = Some r'" using True by (simp add: onChange_effect)
    have p: "pairOf f s = Some (current g s, proposed g pc)"
      using True h(1) by (simp add: pairOf_def)
    have "\<exists>b0 a0. pairOf f s = Some (b0, a0) \<and> r_key r' = resolverKey f b0 a0
        \<and> inSync r' b0 a0 \<and> (\<forall>b1 a1. pairOf f ?t = Some (b1, a1) \<longrightarrow> b1 = b0 \<or> a1 = a0)"
    proof (intro exI conjI allI impI)
      show "pairOf f s = Some (current g s, proposed g pc)" by (rule p)
      show "r_key r' = resolverKey f (current g s) (proposed g pc)"
        using k c(2) True by simp
      show "inSync r' (current g s) (proposed g pc)" by (rule sy')
      fix b1 a1
      assume "pairOf f ?t = Some (b1, a1)"
      with p have "a1 = proposed g pc" by (rule after_same)
      then show "b1 = current g s \<or> a1 = proposed g pc" by simp
    qed
    then show ?thesis unfolding eq carried_def res by simp
  qed
qed

lemma carried_handle:
  assumes rd: "rendered s"
  shows "carried f s (handle e s)"
proof (cases e)
  case (Incoming d)
  have "b1 = b0" if "pairOf f s = Some (b0, a0)" "pairOf f (onIncoming (Some d) s) = Some (b1, a1)"
    for b0 a0 b1 a1
    using that by (auto simp: pairOf_eq)
  then show ?thesis using Incoming rd by (auto intro!: carried_same)
next
  case AcceptAll
  then show ?thesis using rd
    by (auto intro!: carried_same simp: pairOf_eq pendingChanges_bulk)
next
  case DeclineAll
  then show ?thesis using rd
    by (auto intro!: carried_same simp: pairOf_eq pendingChanges_bulk)
next
  case (Decide g idx decision)
  then show ?thesis using carried_decide [OF rd] by simp
next
  case (Input g v)
  show ?thesis
  proof (cases "showsResolver g s")
    case True
    with Input rd show ?thesis by (auto intro!: carried_same)
  next
    case False
    then have t: "handle e s = setCurrent g v s" using Input by simp
    show ?thesis
    proof (cases "f = g")
      case True
      with False rd have "resolver f s = None" by (simp add: rendered_None)
      then show ?thesis unfolding t by (simp add: carried_def)
    next
      case ne: False
      have "a1 = a0" if "pairOf f s = Some (b0, a0)" "pairOf f (setCurrent g v s) = Some (b1, a1)"
        for b0 a0 b1 a1
        using that by (auto simp: pairOf_eq)
      then show ?thesis unfolding t using rd by (auto intro!: carried_same)
    qed
  qed
qed

lemma rendered_initial: "rendered (render initialContact)"
proof (rule render_rendered)
  fix f
  have "resolver f initialContact = None" by (cases f) (simp_all add: initialContact_def)
  then show "carried f initialContact initialContact" by (simp add: carried_def)
qed

lemma rendered_step: "rendered s \<Longrightarrow> rendered (step s e)"
  unfolding step_def by (rule render_rendered) (rule carried_handle)

lemma rendered_run: "rendered (run es)"
proof (induction es rule: rev_induct)
  case Nil
  show ?case by (simp add: run_def rendered_initial)
next
  case (snoc e es)
  then have "rendered (step (run es) e)" by (rule rendered_step)
  then show ?case by (simp add: run_def)
qed

text \<open>
  Claim C7. After every step of the component from a reachable state, a resolver mounted for
  a field has the operation list of the current \<open>(before, after)\<close> pair of that field and a
  decision store keyed by exactly the change-op indices of that list; and when the step
  changed the pair, the store is the initial one, with every decision pending.
\<close>

theorem regeneration:
  assumes "resolver f (step (run es) e) = Some r'"
  shows "(\<exists>pc'. pendingChanges (step (run es) e) = Some pc'
            \<and> r_ops r' = groupOps (current f (step (run es) e)) (proposed f pc'))
       \<and> map fst (r_decisions r') = changeIdxs (r_ops r')
       \<and> (pairOf f (step (run es) e) \<noteq> pairOf f (run es)
            \<longrightarrow> r_decisions r' = initDecisions (r_ops r'))"
proof -
  have c: "carried f (run es) (handle e (run es))"
    using rendered_run by (rule carried_handle)
  from render_post [OF c] assms
  have "mounted f (step (run es) e) r'"
    and "pairOf f (step (run es) e) \<noteq> pairOf f (run es)
            \<longrightarrow> r_decisions r' = initDecisions (r_ops r')"
    by (simp_all add: step_def)
  then show ?thesis unfolding mounted_def inSync_def by auto
qed

lemma example_regenerated:
  "resolver TextField (step exampleContact (Decide TextField 0 Accept))
     = Some \<lparr>r_key = js ''text-c b|c d'',
         r_ops = [EqualOp (js ''c ''), ChangeOp (js ''b'') (js ''d'')],
         r_decisions = [(1, Pending)]\<rparr>"
  "pairOf TextField (step exampleContact (Decide TextField 0 Accept)) = Some (js ''c b'', js ''c d'')"
  "pairOf TextField exampleContact = Some (js ''a b'', js ''c d'')"
  by code_simp+

theorem regeneration_witness:
  "resolver TextField (step (run [Input TextField (js ''a b''), Incoming exampleProposal])
       (Decide TextField 0 Accept))
     = Some \<lparr>r_key = js ''text-c b|c d'',
         r_ops = [EqualOp (js ''c ''), ChangeOp (js ''b'') (js ''d'')],
         r_decisions = [(1, Pending)]\<rparr>
   \<and> pairOf TextField (step (run [Input TextField (js ''a b''), Incoming exampleProposal])
       (Decide TextField 0 Accept))
      \<noteq> pairOf TextField (run [Input TextField (js ''a b''), Incoming exampleProposal])
   \<and> [(1, Pending)] = initDecisions [EqualOp (js ''c ''), ChangeOp (js ''b'') (js ''d'')]
   \<and> map fst [(1 :: nat, Pending)] = changeIdxs [EqualOp (js ''c ''), ChangeOp (js ''b'') (js ''d'')]"
proof -
  have r: "resolver TextField (step (run [Input TextField (js ''a b''), Incoming exampleProposal])
       (Decide TextField 0 Accept))
     = Some \<lparr>r_key = js ''text-c b|c d'',
         r_ops = [EqualOp (js ''c ''), ChangeOp (js ''b'') (js ''d'')],
         r_decisions = [(1, Pending)]\<rparr>"
    using example_regenerated(1) by (simp only: exampleContact_def)
  have p: "pairOf TextField (step (run [Input TextField (js ''a b''), Incoming exampleProposal])
       (Decide TextField 0 Accept))
      \<noteq> pairOf TextField (run [Input TextField (js ''a b''), Incoming exampleProposal])"
    using example_regenerated(2,3) by (simp add: exampleContact_def js_def)
  show ?thesis
    using regeneration [OF r] r p by (simp add: keys_initDecisions)
qed

end
